theory Spec2Isabelle
  imports Main "HOL-Library.Word" "HOL-Library.Char_ord" "HOL-Library.List_Lexorder"
    "HOL-Library.Multiset"
begin

section \<open>Parallel oplog application: \<open>src/mongo/db/repl/sync_tail.cpp\<close>\<close>

subsection \<open>Data model\<close>

text \<open>
  Modelled from the spec: \<open>OplogEntry\<close>, \<open>OpTime\<close>, \<open>OplogApplier::Options\<close> and the
  enumerations are declared in headers that are not among the sources. Section 3 of the
  specification lists the fields and predicates of an entry that the core uses; they are
  the fields of the record below. The type \<open>'e\<close> is the type of BSON elements (the
  \<open>_id\<close> of a CRUD payload); it is left open because the code only hashes it.
\<close>

datatype OpTypeEnum = kCommand | kInsert | kUpdate | kDelete | kNoop

datatype CommandType =
  kNotCommand | kApplyOps | kAbortTransaction | kCommitTransaction | kOtherCommand

datatype Mode = kInitialSync | kRecovering | kSecondary

record OpTime =
  opTerm :: int
  opTimestamp :: nat

text \<open>
  Modelled from the spec: an opTime is a logical timestamp \<open>(term, ts)\<close>; it is compared
  by term first, then by timestamp.
\<close>

definition opTime_le :: "OpTime \<Rightarrow> OpTime \<Rightarrow> bool" where
  "opTime_le a b \<longleftrightarrow>
     opTerm a < opTerm b \<or> (opTerm a = opTerm b \<and> opTimestamp a \<le> opTimestamp b)"

type_synonym LogicalSessionId = nat
type_synonym Collator = string

record 'e OplogEntry =
  getOpType :: OpTypeEnum
  getNss :: string
  getUuid :: "nat option"
  getOpTime :: OpTime
  getIdElement :: 'e
  getSessionId :: "LogicalSessionId option"
  getTxnNumber :: "int option"
  getPrevWriteOpTimeInTransaction :: "OpTime option"
  getCommandType :: CommandType
  isPartialTransaction :: bool
  shouldPrepare :: bool
  isPreparedCommit :: bool
  isTerminalApplyOps :: bool
  isForCappedCollection :: bool

text \<open>\<open>OplogEntry::isCrudOpType\<close>: insert, update and delete.\<close>

definition isCrudOpType :: "OpTypeEnum \<Rightarrow> bool" where
  "isCrudOpType t \<longleftrightarrow> t = kInsert \<or> t = kUpdate \<or> t = kDelete"

record Options =
  mode :: Mode
  beginApplyingOpTime :: OpTime
  allowNamespaceNotFoundErrorsOnCrudOps :: bool

subsection \<open>The catalog and the other collaborators of the partitioning pass\<close>

record Collection =
  collIsCapped :: bool
  getDefaultCollator :: "Collator option"

type_synonym Database = "string \<Rightarrow> Collection option"

text \<open>
  The collaborators that \<open>fillWriterVectors\<close> calls and that live outside the file are
  parameters: the storage engine and the catalog, the three hash functions, the session
  update tracker (a state of type \<open>'s\<close> with its two operations) and the two functions
  that flatten a transaction or an \<open>applyOps\<close> entry.
\<close>

record ('e, 's) Env =
  supportsDocLocking :: bool
  getDb :: "string \<Rightarrow> Database option"
  stringMapHash :: "string \<Rightarrow> 64 word"
  elementHash :: "Collator option \<Rightarrow> 'e \<Rightarrow> 64 word"
  murmurHash3_x86_32 :: "64 word \<Rightarrow> 32 word \<Rightarrow> 32 word"
  newTracker :: 's
  updateSession :: "'s \<Rightarrow> 'e OplogEntry \<Rightarrow> 'e OplogEntry list option \<times> 's"
  flushAll :: "'s \<Rightarrow> 'e OplogEntry list"
  readTransactionOperationsFromOplogChain ::
    "'e OplogEntry \<Rightarrow> 'e OplogEntry list \<Rightarrow> 'e OplogEntry list"
  extractOperations :: "'e OplogEntry \<Rightarrow> 'e OplogEntry list"

text \<open>Modelled from the spec: a namespace is \<open>db.coll\<close>; \<open>NamespaceString::db\<close> is the
  part before the first dot.\<close>

definition nss_db :: "string \<Rightarrow> string" where
  "nss_db ns = takeWhile (\<lambda>c. c \<noteq> CHR ''.'') ns"

record CollectionProperties =
  isCapped :: bool
  collator :: "Collator option"

definition defaultCollectionProperties :: CollectionProperties where
  "defaultCollectionProperties = \<lparr>isCapped = False, collator = None\<rparr>"

text \<open>\<open>CachedCollectionProperties::getCollectionPropertiesImpl\<close>\<close>

definition getCollectionPropertiesImpl :: "('e, 's) Env \<Rightarrow> string \<Rightarrow> CollectionProperties" where
  "getCollectionPropertiesImpl env nss =
     (case getDb env (nss_db nss) of
        None \<Rightarrow> defaultCollectionProperties
      | Some db \<Rightarrow>
          (case db nss of
             None \<Rightarrow> defaultCollectionProperties
           | Some collection \<Rightarrow>
               \<lparr>isCapped = collIsCapped collection,
                collator = getDefaultCollator collection\<rparr>))"

subsection \<open>The state of a partitioning pass\<close>

text \<open>
  A writer vector holds pointers to entries. An entry lives either in the input batch
  \<open>ops\<close> or in one of the vectors of \<open>derivedOps\<close>; a pointer is the place of the entry.
\<close>

datatype OpPtr = InputOp nat | DerivedOp nat nat

datatype Fault = InvariantFailure | EmptyOptional | DivideByZero | DanglingPointer

record ('e, 's) FillState =
  ops :: "'e OplogEntry list"
  derivedOps :: "'e OplogEntry list list"
  writerVectors :: "OpPtr list list"
  partialTxnOps :: "LogicalSessionId \<Rightarrow> OpPtr list option"
  collPropertiesCache :: "string \<Rightarrow> CollectionProperties option"
  sessionUpdateTracker :: 's

fun deref :: "('e, 's) FillState \<Rightarrow> OpPtr \<Rightarrow> 'e OplogEntry option" where
  "deref st (InputOp i) = (if i < length (ops st) then Some (ops st ! i) else None)"
| "deref st (DerivedOp k j) =
     (if k < length (derivedOps st) \<and> j < length (derivedOps st ! k)
      then Some (derivedOps st ! k ! j) else None)"

text \<open>The write \<open>op->isForCappedCollection = true\<close> through a pointer.\<close>

fun markForCapped :: "OpPtr \<Rightarrow> ('e, 's) FillState \<Rightarrow> ('e, 's) FillState" where
  "markForCapped (InputOp i) st =
     st\<lparr>ops := (ops st)[i := (ops st ! i)\<lparr>isForCappedCollection := True\<rparr>]\<rparr>"
| "markForCapped (DerivedOp k j) st =
     st\<lparr>derivedOps := (derivedOps st)
        [k := (derivedOps st ! k)[j := (derivedOps st ! k ! j)\<lparr>isForCappedCollection := True\<rparr>]]\<rparr>"

text \<open>\<open>std::map::operator[]\<close> on the partial-transaction map: a missing key reads as the
  empty vector.\<close>

definition partialTxnList :: "('e, 's) FillState \<Rightarrow> LogicalSessionId \<Rightarrow> OpPtr list" where
  "partialTxnList st sid = (case partialTxnOps st sid of None \<Rightarrow> [] | Some l \<Rightarrow> l)"

subsection \<open>\<open>CachedCollectionProperties\<close>, \<open>processCrudOp\<close>, \<open>addToWriterVector\<close>\<close>

definition getCollectionProperties ::
  "('e, 's) Env \<Rightarrow> string \<Rightarrow> ('e, 's) FillState \<Rightarrow> CollectionProperties \<times> ('e, 's) FillState" where
  "getCollectionProperties env ns st =
     (case collPropertiesCache st ns of
        Some p \<Rightarrow> (p, st)
      | None \<Rightarrow>
          (let collProperties = getCollectionPropertiesImpl env ns
           in (collProperties,
               st\<lparr>collPropertiesCache := (collPropertiesCache st)(ns \<mapsto> collProperties)\<rparr>)))"

text \<open>
  \<open>processCrudOp\<close> returns the new hash and the state, in which the property cache and
  the entry behind the pointer may have changed.
\<close>

definition processCrudOp ::
  "('e, 's) Env \<Rightarrow> OpPtr \<Rightarrow> 'e OplogEntry \<Rightarrow> 32 word \<Rightarrow> ('e, 's) FillState
     \<Rightarrow> 32 word \<times> ('e, 's) FillState" where
  "processCrudOp env p op hash st =
     (case getCollectionProperties env (getNss op) st of
        (collProperties, st1) \<Rightarrow>
          (let hash' =
                 (if supportsDocLocking env \<and> \<not> isCapped collProperties
                  then murmurHash3_x86_32 env
                         (elementHash env (collator collProperties) (getIdElement op)) hash
                  else hash);
               st2 =
                 (if getOpType op = kInsert \<and> isCapped collProperties
                  then markForCapped p st1 else st1)
           in (hash', st2)))"

definition addToWriterVector ::
  "OpPtr \<Rightarrow> 32 word \<Rightarrow> ('e, 's) FillState \<Rightarrow> Fault + ('e, 's) FillState" where
  "addToWriterVector p hash st =
     (let numWriters = (of_nat (length (writerVectors st)) :: 32 word)
      in if numWriters = 0 then Inl DivideByZero
         else
           (let w = unat (hash mod numWriters)
            in Inr (st\<lparr>writerVectors :=
                        (writerVectors st)[w := (writerVectors st ! w) @ [p]]\<rparr>)))"

text \<open>A loop over pointers that stops at the first fault.\<close>

fun forEachOp ::
  "(OpPtr \<Rightarrow> ('e, 's) FillState \<Rightarrow> Fault + ('e, 's) FillState) \<Rightarrow> OpPtr list
     \<Rightarrow> ('e, 's) FillState \<Rightarrow> Fault + ('e, 's) FillState" where
  "forEachOp body [] st = Inr st"
| "forEachOp body (p # ps) st =
     (case body p st of Inl e \<Rightarrow> Inl e | Inr st' \<Rightarrow> forEachOp body ps st')"

text \<open>The body of the loop of \<open>addDerivedOps\<close>.\<close>

definition addDerivedOp ::
  "('e, 's) Env \<Rightarrow> OpPtr \<Rightarrow> ('e, 's) FillState \<Rightarrow> Fault + ('e, 's) FillState" where
  "addDerivedOp env p st =
     (case deref st p of
        None \<Rightarrow> Inl DanglingPointer
      | Some op \<Rightarrow>
          (let hash = (ucast (stringMapHash env (getNss op)) :: 32 word)
           in if isCrudOpType (getOpType op)
              then (case processCrudOp env p op hash st of
                      (hash', st') \<Rightarrow> addToWriterVector p hash' st')
              else addToWriterVector p hash st))"

text \<open>
  \<open>derivedOps->emplace_back(v)\<close> followed by \<open>addDerivedOps\<close> on \<open>derivedOps->back()\<close>.
\<close>

definition emplaceAndAddDerivedOps ::
  "('e, 's) Env \<Rightarrow> 'e OplogEntry list \<Rightarrow> ('e, 's) FillState \<Rightarrow> Fault + ('e, 's) FillState" where
  "emplaceAndAddDerivedOps env v st =
     (let k = length (derivedOps st);
          st1 = st\<lparr>derivedOps := derivedOps st @ [v]\<rparr>
      in forEachOp (addDerivedOp env) (map (DerivedOp k) [0..<length v]) st1)"

subsection \<open>\<open>SyncTail::_deriveOpsAndFillWriterVectors\<close>\<close>

text \<open>The call of the session update tracker, when the pass has one.\<close>

definition trackSession ::
  "('e, 's) Env \<Rightarrow> bool \<Rightarrow> 'e OplogEntry \<Rightarrow> ('e, 's) FillState \<Rightarrow> Fault + ('e, 's) FillState" where
  "trackSession env useTracker op st =
     (if useTracker
      then (case updateSession env (sessionUpdateTracker st) op of
              (newOplogWrites, t') \<Rightarrow>
                (let st1 = st\<lparr>sessionUpdateTracker := t'\<rparr>
                 in case newOplogWrites of
                      None \<Rightarrow> Inr st1
                    | Some v \<Rightarrow> emplaceAndAddDerivedOps env v st1))
      else Inr st)"

text \<open>The branch that saves an entry of a multi-entry transaction until the commit.\<close>

definition bufferPartialTxnOp ::
  "OpPtr \<Rightarrow> 'e OplogEntry \<Rightarrow> ('e, 's) FillState \<Rightarrow> Fault + ('e, 's) FillState" where
  "bufferPartialTxnOp p op st =
     (case getSessionId op of
        None \<Rightarrow> Inl EmptyOptional
      | Some sid \<Rightarrow>
          (let l = partialTxnList st sid
           in case l of
                [] \<Rightarrow> Inr (st\<lparr>partialTxnOps := (partialTxnOps st)(sid \<mapsto> [p])\<rparr>)
              | front # _ \<Rightarrow>
                  (case deref st front of
                     None \<Rightarrow> Inl DanglingPointer
                   | Some f \<Rightarrow>
                       if getTxnNumber f = getTxnNumber op
                       then Inr (st\<lparr>partialTxnOps := (partialTxnOps st)(sid \<mapsto> l @ [p])\<rparr>)
                       else Inl InvariantFailure)))"

definition clearOnAbort ::
  "'e OplogEntry \<Rightarrow> ('e, 's) FillState \<Rightarrow> Fault + ('e, 's) FillState" where
  "clearOnAbort op st =
     (if getCommandType op = kAbortTransaction
      then (case getSessionId op of
              None \<Rightarrow> Inl EmptyOptional
            | Some sid \<Rightarrow> Inr (st\<lparr>partialTxnOps := (partialTxnOps st)(sid \<mapsto> [])\<rparr>))
      else Inr st)"

text \<open>
  The flattening of a transaction at its last entry:
  \<open>readTransactionOperationsFromOplogChain\<close> gets the entry and the entries behind the
  saved pointers, the saved list is cleared, and the flattened entries are routed.
\<close>

definition materializeTransaction ::
  "('e, 's) Env \<Rightarrow> 'e OplogEntry \<Rightarrow> LogicalSessionId \<Rightarrow> ('e, 's) FillState
     \<Rightarrow> Fault + ('e, 's) FillState" where
  "materializeTransaction env op sid st =
     (case those (map (deref st) (partialTxnList st sid)) of
        None \<Rightarrow> Inl DanglingPointer
      | Some partialOps \<Rightarrow>
          emplaceAndAddDerivedOps env
            (readTransactionOperationsFromOplogChain env op partialOps)
            (st\<lparr>partialTxnOps := (partialTxnOps st)(sid \<mapsto> [])\<rparr>))"

text \<open>The part of the loop body after the session tracker.\<close>

definition routeOp ::
  "('e, 's) Env \<Rightarrow> Options \<Rightarrow> OpPtr \<Rightarrow> 'e OplogEntry \<Rightarrow> ('e, 's) FillState
     \<Rightarrow> Fault + ('e, 's) FillState" where
  "routeOp env opts p op st =
     (if isPartialTransaction op \<or> (shouldPrepare op \<and> mode opts = kInitialSync)
      then bufferPartialTxnOp p op st
      else
        (case clearOnAbort op st of
           Inl e \<Rightarrow> Inl e
         | Inr st1 \<Rightarrow>
             (case (if isCrudOpType (getOpType op)
                    then processCrudOp env p op (ucast (stringMapHash env (getNss op))) st1
                    else (ucast (stringMapHash env (getNss op)), st1)) of
                (hash, st2) \<Rightarrow>
                  (case deref st2 p of
                     None \<Rightarrow> Inl DanglingPointer
                   | Some op' \<Rightarrow>
                       if isTerminalApplyOps op'
                       then (case getSessionId op' of
                               Some sid \<Rightarrow>
                                 if getTxnNumber op' \<noteq> None
                                 then materializeTransaction env op' sid st2
                                 else if getPrevWriteOpTimeInTransaction op' \<noteq> None
                                 then Inl InvariantFailure
                                 else emplaceAndAddDerivedOps env (extractOperations env op') st2
                             | None \<Rightarrow>
                                 if getPrevWriteOpTimeInTransaction op' \<noteq> None
                                 then Inl InvariantFailure
                                 else emplaceAndAddDerivedOps env (extractOperations env op') st2)
                       else if isPreparedCommit op' \<and> mode opts = kInitialSync
                       then (case getSessionId op' of
                               None \<Rightarrow> Inl EmptyOptional
                             | Some sid \<Rightarrow> materializeTransaction env op' sid st2)
                       else addToWriterVector p hash st2))))"

text \<open>The loop body: the floor check, the session tracker, the routing.\<close>

definition deriveOp ::
  "('e, 's) Env \<Rightarrow> Options \<Rightarrow> bool \<Rightarrow> OpPtr \<Rightarrow> ('e, 's) FillState
     \<Rightarrow> Fault + ('e, 's) FillState" where
  "deriveOp env opts useTracker p st =
     (case deref st p of
        None \<Rightarrow> Inl DanglingPointer
      | Some op \<Rightarrow>
          if opTime_le (getOpTime op) (beginApplyingOpTime opts) then Inr st
          else (case trackSession env useTracker op st of
                  Inl e \<Rightarrow> Inl e
                | Inr st1 \<Rightarrow> routeOp env opts p op st1))"

text \<open>
  The pass walks either the input batch (\<open>src = None\<close>) or the vector \<open>k\<close> of
  \<open>derivedOps\<close> (\<open>src = Some k\<close>); its map of partial transactions and its property
  cache are new at every call.
\<close>

definition srcPtrs :: "nat option \<Rightarrow> ('e, 's) FillState \<Rightarrow> OpPtr list" where
  "srcPtrs src st =
     (case src of
        None \<Rightarrow> map InputOp [0..<length (ops st)]
      | Some k \<Rightarrow>
          if k < length (derivedOps st) then map (DerivedOp k) [0..<length (derivedOps st ! k)]
          else [])"

definition deriveOpsAndFillWriterVectors ::
  "('e, 's) Env \<Rightarrow> Options \<Rightarrow> nat option \<Rightarrow> bool \<Rightarrow> ('e, 's) FillState
     \<Rightarrow> Fault + ('e, 's) FillState" where
  "deriveOpsAndFillWriterVectors env opts src useTracker st =
     forEachOp (deriveOp env opts useTracker) (srcPtrs src st)
       (st\<lparr>partialTxnOps := Map.empty, collPropertiesCache := Map.empty\<rparr>)"

subsection \<open>\<open>SyncTail::fillWriterVectors\<close>\<close>

definition initialFillState ::
  "('e, 's) Env \<Rightarrow> 'e OplogEntry list \<Rightarrow> OpPtr list list \<Rightarrow> 'e OplogEntry list list
     \<Rightarrow> ('e, 's) FillState" where
  "initialFillState env batch wvs dops =
     \<lparr>ops = batch, derivedOps = dops, writerVectors = wvs, partialTxnOps = Map.empty,
      collPropertiesCache = Map.empty, sessionUpdateTracker = newTracker env\<rparr>"

definition fillWriterVectors ::
  "('e, 's) Env \<Rightarrow> Options \<Rightarrow> 'e OplogEntry list \<Rightarrow> OpPtr list list \<Rightarrow> 'e OplogEntry list list
     \<Rightarrow> Fault + ('e, 's) FillState" where
  "fillWriterVectors env opts batch wvs dops =
     (case deriveOpsAndFillWriterVectors env opts None True (initialFillState env batch wvs dops) of
        Inl e \<Rightarrow> Inl e
      | Inr st1 \<Rightarrow>
          (let newOplogWrites = flushAll env (sessionUpdateTracker st1)
           in if newOplogWrites \<noteq> []
              then (let st2 = st1\<lparr>derivedOps := derivedOps st1 @ [newOplogWrites]\<rparr>
                    in deriveOpsAndFillWriterVectors env opts
                         (Some (length (derivedOps st2) - 1)) False st2)
              else Inr st1))"

subsection \<open>Statuses, exceptions and the collaborators of the appliers\<close>

text \<open>
  Modelled from the spec: \<open>Status\<close>, \<open>ErrorCodes\<close> and \<open>DBException\<close> are declared outside
  the file. A status is an error code with its context; an operation either returns a value
  or throws a \<open>DBException\<close>, which carries a status; a failed \<open>invariant\<close> aborts.
\<close>

datatype ErrorCode =
  OK | NamespaceNotFound | WriteConflict | UpdateOperationFailed | OtherError nat

record Status =
  code :: ErrorCode
  statusContext :: "string list"

datatype 'a Outcome = Returns 'a | Throws Status | Aborts Fault

definition statusOK :: Status where
  "statusOK = \<lparr>code = OK, statusContext = []\<rparr>"

definition isOK :: "Status \<Rightarrow> bool" where
  "isOK s \<longleftrightarrow> code s = OK"

text \<open>\<open>DBException::addContext\<close>: the context is put in front of what the status says.\<close>

definition addContext :: "string \<Rightarrow> Status \<Rightarrow> Status" where
  "addContext c s = s\<lparr>statusContext := c # statusContext s\<rparr>"

datatype LockMode = MODE_IS | MODE_IX | MODE_S | MODE_X

type_synonym NamespaceStringOrUUID = "string + string \<times> nat"

text \<open>
  The storage engine is a state of type \<open>'w\<close>. The operations on it that the appliers
  call and that live outside the file are parameters: opening the collection
  (\<open>AutoGetCollection\<close>, which may throw, and whose \<open>getDb\<close> says whether the database
  exists), \<open>applyOperation_inlock\<close> (which also says how often it called the counter
  callback), \<open>applyCommand_inlock\<close>, the insert grouper (the position of the last entry of
  the group it applied, or none), the multikey paths the storage engine tracked, and
  \<open>redact(toBSON())\<close> of an entry.
\<close>

record ('e, 'w) ApplyEnv =
  autoGetCollection :: "'w \<Rightarrow> NamespaceStringOrUUID \<Rightarrow> LockMode \<Rightarrow> bool Outcome"
  applyOperation_inlock ::
    "'w \<Rightarrow> 'e OplogEntry \<Rightarrow> bool \<Rightarrow> Mode \<Rightarrow> (Status Outcome \<times> nat) \<times> 'w"
  applyCommand_inlock :: "'w \<Rightarrow> 'e OplogEntry \<Rightarrow> Mode \<Rightarrow> Status Outcome \<times> 'w"
  groupAndApplyInserts :: "'w \<Rightarrow> 'e OplogEntry list \<Rightarrow> nat \<Rightarrow> Mode \<Rightarrow> nat option \<times> 'w"
  getMultikeyPathInfo :: "'w \<Rightarrow> string list"
  redactedBSON :: "'e OplogEntry \<Rightarrow> string"

record 'w ApplyState =
  storage :: 'w
  opsAppliedStats :: nat
  writesAreReplicated :: bool
  documentValidationDisabled :: bool

subsection \<open>\<open>getNsOrUUID\<close>, \<open>fixLockModeForSystemDotViewsChanges\<close>\<close>

definition getNsOrUUID :: "string \<Rightarrow> 'e OplogEntry \<Rightarrow> NamespaceStringOrUUID" where
  "getNsOrUUID nss op =
     (case getUuid op of
        Some ui \<Rightarrow> Inr (nss_db nss, ui)
      | None \<Rightarrow> Inl nss)"

text \<open>Modelled from the spec: \<open>NamespaceString::isSystemDotViews\<close> holds when the
  collection part of the namespace is \<open>system.views\<close>.\<close>

definition isSystemDotViews :: "string \<Rightarrow> bool" where
  "isSystemDotViews nss \<longleftrightarrow> drop (Suc (length (nss_db nss))) nss = ''system.views''"

definition fixLockModeForSystemDotViewsChanges :: "string \<Rightarrow> LockMode \<Rightarrow> LockMode" where
  "fixLockModeForSystemDotViewsChanges nss m = (if isSystemDotViews nss then MODE_X else m)"

subsection \<open>\<open>syncApply\<close>\<close>

text \<open>
  Modelled from the spec: \<open>writeConflictRetry\<close> runs the thunk and, when it throws
  \<open>WriteConflict\<close>, runs it again, without bound. A run that never stops has no result
  (\<open>None\<close>).
\<close>

partial_function (option) writeConflictRetry ::
  "('w ApplyState \<Rightarrow> Status Outcome \<times> 'w ApplyState) \<Rightarrow> 'w ApplyState
     \<Rightarrow> (Status Outcome \<times> 'w ApplyState) option" where
  "writeConflictRetry f s =
     (case f s of
        (Returns r, s') \<Rightarrow> Some (Returns r, s')
      | (Throws e, s') \<Rightarrow>
          if code e = WriteConflict then writeConflictRetry f s' else Some (Throws e, s')
      | (Aborts a, s') \<Rightarrow> Some (Aborts a, s'))"

text \<open>The lambda \<open>applyOp\<close>: a \<open>WriteConflict\<close> status becomes an exception.\<close>

definition applyOp ::
  "('e, 'w) ApplyEnv \<Rightarrow> 'e OplogEntry \<Rightarrow> Mode \<Rightarrow> 'w ApplyState
     \<Rightarrow> Status Outcome \<times> 'w ApplyState" where
  "applyOp aenv op oplogApplicationMode s =
     (let shouldAlwaysUpsert = (oplogApplicationMode \<noteq> kInitialSync)
      in case applyOperation_inlock aenv (storage s) op shouldAlwaysUpsert oplogApplicationMode of
           ((r, applied), w') \<Rightarrow>
             (let s' = s\<lparr>storage := w', opsAppliedStats := opsAppliedStats s + applied\<rparr>
              in case r of
                   Throws e \<Rightarrow> (Throws e, s')
                 | Aborts a \<Rightarrow> (Aborts a, s')
                 | Returns status \<Rightarrow>
                     if \<not> isOK status \<and> code status = WriteConflict
                     then (Throws \<lparr>code = WriteConflict, statusContext = []\<rparr>, s')
                     else (Returns status, s')))"

text \<open>The \<open>try\<close> block of the CRUD branch.\<close>

definition crudTryBlock ::
  "('e, 'w) ApplyEnv \<Rightarrow> 'e OplogEntry \<Rightarrow> Mode \<Rightarrow> 'w ApplyState
     \<Rightarrow> Status Outcome \<times> 'w ApplyState" where
  "crudTryBlock aenv op oplogApplicationMode s =
     (let nss = getNss op
      in case autoGetCollection aenv (storage s) (getNsOrUUID nss op)
                (fixLockModeForSystemDotViewsChanges nss MODE_IX) of
           Throws e \<Rightarrow> (Throws e, s)
         | Aborts a \<Rightarrow> (Aborts a, s)
         | Returns db \<Rightarrow>
             if \<not> db
             then (Throws \<lparr>code = NamespaceNotFound,
                           statusContext = [''missing database ('' @ nss_db nss @ '')'']\<rparr>, s)
             else applyOp aenv op oplogApplicationMode s)"

text \<open>The thunk of the CRUD branch: the \<open>try\<close> block and its \<open>catch\<close> of
  \<open>NamespaceNotFound\<close>.\<close>

definition crudThunk ::
  "('e, 'w) ApplyEnv \<Rightarrow> 'e OplogEntry \<Rightarrow> Mode \<Rightarrow> 'w ApplyState
     \<Rightarrow> Status Outcome \<times> 'w ApplyState" where
  "crudThunk aenv op oplogApplicationMode s =
     (case crudTryBlock aenv op oplogApplicationMode s of
        (Returns status, s') \<Rightarrow> (Returns status, s')
      | (Aborts a, s') \<Rightarrow> (Aborts a, s')
      | (Throws ex, s') \<Rightarrow>
          if code ex = NamespaceNotFound
          then (if getOpType op = kDelete \<or> oplogApplicationMode = kRecovering
                then (Returns statusOK, s')
                else (Throws (addContext (''Failed to apply operation: '' @ redactedBSON aenv op) ex),
                      s'))
          else (Throws ex, s'))"

definition commandThunk ::
  "('e, 'w) ApplyEnv \<Rightarrow> 'e OplogEntry \<Rightarrow> Mode \<Rightarrow> 'w ApplyState
     \<Rightarrow> Status Outcome \<times> 'w ApplyState" where
  "commandThunk aenv op oplogApplicationMode s =
     (case applyCommand_inlock aenv (storage s) op oplogApplicationMode of
        (Throws e, w') \<Rightarrow> (Throws e, s\<lparr>storage := w'\<rparr>)
      | (Aborts a, w') \<Rightarrow> (Aborts a, s\<lparr>storage := w'\<rparr>)
      | (Returns status, w') \<Rightarrow>
          (Returns status, s\<lparr>storage := w', opsAppliedStats := opsAppliedStats s + 1\<rparr>))"

text \<open>
  \<open>finishAndLogApply\<close> returns the status it is given; the report it logs for a slow
  operation depends on the clock and is left out.
\<close>

definition finishAndLogApply :: "Status \<Rightarrow> Status" where
  "finishAndLogApply finalStatus = finalStatus"

definition finishApply ::
  "(Status Outcome \<times> 'w ApplyState) option \<Rightarrow> (Status Outcome \<times> 'w ApplyState) option" where
  "finishApply r =
     (case r of
        None \<Rightarrow> None
      | Some (Returns status, s) \<Rightarrow> Some (Returns (finishAndLogApply status), s)
      | Some (Throws e, s) \<Rightarrow> Some (Throws e, s)
      | Some (Aborts a, s) \<Rightarrow> Some (Aborts a, s))"

text \<open>
  \<open>syncApply\<close> starts with two \<open>invariant\<close>s on its context: writes are not replicated
  and document validation is disabled. The fail point that can pause it is left out.
\<close>

definition syncApply ::
  "('e, 'w) ApplyEnv \<Rightarrow> 'e OplogEntry \<Rightarrow> Mode \<Rightarrow> 'w ApplyState
     \<Rightarrow> (Status Outcome \<times> 'w ApplyState) option" where
  "syncApply aenv op oplogApplicationMode s =
     (if writesAreReplicated s \<or> \<not> documentValidationDisabled s
      then Some (Aborts InvariantFailure, s)
      else
        (let opType = getOpType op
         in if opType = kNoop
            then Some (Returns statusOK, s\<lparr>opsAppliedStats := opsAppliedStats s + 1\<rparr>)
            else if isCrudOpType opType
            then finishApply (writeConflictRetry (crudThunk aenv op oplogApplicationMode) s)
            else finishApply (writeConflictRetry (commandThunk aenv op oplogApplicationMode) s)))"

subsection \<open>\<open>stableSortByNamespace\<close>\<close>

text \<open>
  \<open>std::stable_sort\<close> is the standard library's; it is modelled by a stable insertion sort
  with the comparator it is given. Namespaces compare as their strings do, byte by byte.
  A worker vector is here the list of the entries its pointers point to.
\<close>

fun insertSorted :: "('a \<Rightarrow> 'a \<Rightarrow> bool) \<Rightarrow> 'a \<Rightarrow> 'a list \<Rightarrow> 'a list" where
  "insertSorted cmp x [] = [x]"
| "insertSorted cmp x (y # ys) =
     (if cmp y x then y # insertSorted cmp x ys else x # y # ys)"

definition std_stable_sort :: "('a \<Rightarrow> 'a \<Rightarrow> bool) \<Rightarrow> 'a list \<Rightarrow> 'a list" where
  "std_stable_sort cmp xs = foldr (insertSorted cmp) xs []"

definition nssComparator :: "'e OplogEntry \<Rightarrow> 'e OplogEntry \<Rightarrow> bool" where
  "nssComparator l r \<longleftrightarrow> getNss l < getNss r"

definition stableSortByNamespace :: "'e OplogEntry list \<Rightarrow> 'e OplogEntry list" where
  "stableSortByNamespace oplogEntryPointers =
     (if length oplogEntryPointers < 1 then oplogEntryPointers
      else std_stable_sort nssComparator oplogEntryPointers)"

subsection \<open>\<open>multiSyncApply\<close>\<close>

text \<open>
  One turn of the loop over the sorted worker vector, at the position \<open>it\<close> of the
  cursor: the body of the \<open>for\<close> statement, which either goes on with the cursor at a new
  position (every \<open>continue\<close>, and the end of the body, followed by \<open>++it\<close>) or leaves the
  function (every \<open>return\<close>, and a failed invariant of \<open>syncApply\<close>). The insert grouper
  may move the cursor.
\<close>

datatype 'w Turn = Continue nat "'w ApplyState" | Leave "Fault + Status" "'w ApplyState"

definition applyTurn ::
  "('e, 'w) ApplyEnv \<Rightarrow> Options \<Rightarrow> 'e OplogEntry list \<Rightarrow> nat \<Rightarrow> 'w ApplyState
     \<Rightarrow> 'w Turn option" where
  "applyTurn aenv opts ops' it s =
     (let entry = ops' ! it
      in case groupAndApplyInserts aenv (storage s) ops' it (mode opts) of
           (Some lastGrouped, w') \<Rightarrow> Some (Continue (Suc lastGrouped) (s\<lparr>storage := w'\<rparr>))
         | (None, w') \<Rightarrow>
             (case syncApply aenv entry (mode opts) (s\<lparr>storage := w'\<rparr>) of
                None \<Rightarrow> None
              | Some (Returns status, s') \<Rightarrow>
                  if \<not> isOK status
                  then (if code status = UpdateOperationFailed \<and> mode opts = kInitialSync
                        then Some (Continue (Suc it) s')
                        else Some (Leave (Inr status) s'))
                  else Some (Continue (Suc it) s')
              | Some (Throws e, s') \<Rightarrow>
                  if code e = NamespaceNotFound \<and> isCrudOpType (getOpType entry) \<and>
                     allowNamespaceNotFoundErrorsOnCrudOps opts
                  then Some (Continue (Suc it) s')
                  else Some (Leave (Inr e) s')
              | Some (Aborts a, s') \<Rightarrow> Some (Leave (Inl a) s')))"

text \<open>
  The loop. \<open>syncApply\<close> may retry without bound and the grouper may move the cursor
  anywhere, so the loop is a partial function; a cursor past the end of the vector is a
  fault.
\<close>

datatype LoopExit = RanToEnd | ReturnedEarly Status

partial_function (option) applyLoop ::
  "('e, 'w) ApplyEnv \<Rightarrow> Options \<Rightarrow> 'e OplogEntry list \<Rightarrow> nat \<Rightarrow> 'w ApplyState
     \<Rightarrow> ((Fault + LoopExit) \<times> 'w ApplyState) option" where
  "applyLoop aenv opts ops' it s =
     (if it = length ops' then Some (Inr RanToEnd, s)
      else if length ops' < it then Some (Inl DanglingPointer, s)
      else
        (case applyTurn aenv opts ops' it s of
           None \<Rightarrow> None
         | Some (Continue it' s') \<Rightarrow> applyLoop aenv opts ops' it' s'
         | Some (Leave (Inl a) s') \<Rightarrow> Some (Inl a, s')
         | Some (Leave (Inr status) s') \<Rightarrow> Some (Inr (ReturnedEarly status), s')))"

text \<open>
  The positions of the cursor: \<open>workerAt aenv opts ops' s0 it s\<close> holds when the loop,
  started at the first entry of \<open>ops'\<close> in the state \<open>s0\<close>, comes to the head of a turn
  with the cursor at \<open>it\<close> in the state \<open>s\<close>.
\<close>

inductive workerAt ::
  "('e, 'w) ApplyEnv \<Rightarrow> Options \<Rightarrow> 'e OplogEntry list \<Rightarrow> 'w ApplyState \<Rightarrow> nat
     \<Rightarrow> 'w ApplyState \<Rightarrow> bool"
  for aenv opts ops' s0 where
  first: "workerAt aenv opts ops' s0 0 s0"
| turn: "workerAt aenv opts ops' s0 it s \<Longrightarrow> it < length ops' \<Longrightarrow>
         applyTurn aenv opts ops' it s = Some (Continue it' s') \<Longrightarrow>
         workerAt aenv opts ops' s0 it' s'"

text \<open>
  \<open>multiSyncApply\<close> marks writes as not replicated and disables document validation for
  its duration (\<open>workerContext\<close>, undone by \<open>restoreContext\<close> when the function is left),
  sorts the vector and runs the loop. It returns the status and the caller's
  \<open>workerMultikeyPathInfo\<close>, which must be empty when the loop has run to its end and then
  gets the multikey paths that were tracked (\<open>workerResult\<close>, the function from the end of
  the loop on).
\<close>

definition workerContext :: "'w ApplyState \<Rightarrow> 'w ApplyState" where
  "workerContext s = s\<lparr>writesAreReplicated := False, documentValidationDisabled := True\<rparr>"

definition restoreContext :: "'w ApplyState \<Rightarrow> 'w ApplyState \<Rightarrow> 'w ApplyState" where
  "restoreContext s s' = s'\<lparr>writesAreReplicated := writesAreReplicated s,
                             documentValidationDisabled := documentValidationDisabled s\<rparr>"

definition workerResult ::
  "('e, 'w) ApplyEnv \<Rightarrow> string list \<Rightarrow> 'w ApplyState
     \<Rightarrow> ((Fault + LoopExit) \<times> 'w ApplyState) option
     \<Rightarrow> ((Fault + Status \<times> string list) \<times> 'w ApplyState) option" where
  "workerResult aenv workerMultikeyPathInfo s r =
     (case r of
        None \<Rightarrow> None
      | Some (Inl f, s') \<Rightarrow> Some (Inl f, restoreContext s s')
      | Some (Inr (ReturnedEarly status), s') \<Rightarrow>
          Some (Inr (status, workerMultikeyPathInfo), restoreContext s s')
      | Some (Inr RanToEnd, s') \<Rightarrow>
          if workerMultikeyPathInfo \<noteq> [] then Some (Inl InvariantFailure, restoreContext s s')
          else Some (Inr (statusOK, getMultikeyPathInfo aenv (storage s')),
                     restoreContext s s'))"

definition multiSyncApply ::
  "('e, 'w) ApplyEnv \<Rightarrow> Options \<Rightarrow> 'e OplogEntry list \<Rightarrow> string list \<Rightarrow> 'w ApplyState
     \<Rightarrow> ((Fault + Status \<times> string list) \<times> 'w ApplyState) option" where
  "multiSyncApply aenv opts ops' workerMultikeyPathInfo s =
     workerResult aenv workerMultikeyPathInfo s
       (applyLoop aenv opts (stableSortByNamespace ops') 0 (workerContext s))"

section \<open>What the partitioning pass does, in closed form\<close>

text \<open>
  The definitions of this section are not in the source. They say, without the loops and
  the error branches, what the functions above compute; each is tied to the code by a
  lemma below, and the theorems are stated with them.
\<close>

text \<open>The property cache of a pass agrees with the catalog; \<open>cacheAdd\<close> is what a lookup
  leaves in the cache, \<open>cacheAfter\<close> what the lookups for a list of entries leave.\<close>

definition cacheValid :: "('e, 's) Env \<Rightarrow> (string \<Rightarrow> CollectionProperties option) \<Rightarrow> bool" where
  "cacheValid env c \<longleftrightarrow> (\<forall>ns p. c ns = Some p \<longrightarrow> p = getCollectionPropertiesImpl env ns)"

definition cacheAdd ::
  "('e, 's) Env \<Rightarrow> string \<Rightarrow> (string \<Rightarrow> CollectionProperties option)
     \<Rightarrow> (string \<Rightarrow> CollectionProperties option)" where
  "cacheAdd env ns c = (case c ns of Some p \<Rightarrow> c | None \<Rightarrow> c(ns \<mapsto> getCollectionPropertiesImpl env ns))"

definition cacheAfter ::
  "('e, 's) Env \<Rightarrow> 'e OplogEntry list \<Rightarrow> (string \<Rightarrow> CollectionProperties option)
     \<Rightarrow> (string \<Rightarrow> CollectionProperties option)" where
  "cacheAfter env v c =
     fold (\<lambda>op c. if isCrudOpType (getOpType op) then cacheAdd env (getNss op) c else c) v c"

text \<open>What \<open>processCrudOp\<close> does to an entry, and the hash it computes for it, when the
  property cache agrees with the catalog; the index of the writer vector that follows
  from the hash; and \<open>push_back\<close> on one of the writer vectors.\<close>

definition markCapped :: "('e, 's) Env \<Rightarrow> 'e OplogEntry \<Rightarrow> 'e OplogEntry" where
  "markCapped env op =
     (if getOpType op = kInsert \<and> isCapped (getCollectionPropertiesImpl env (getNss op))
      then op\<lparr>isForCappedCollection := True\<rparr> else op)"

definition routeHash :: "('e, 's) Env \<Rightarrow> 'e OplogEntry \<Rightarrow> 32 word" where
  "routeHash env op =
     (let h = (ucast (stringMapHash env (getNss op)) :: 32 word);
          cp = getCollectionPropertiesImpl env (getNss op)
      in if isCrudOpType (getOpType op) \<and> supportsDocLocking env \<and> \<not> isCapped cp
         then murmurHash3_x86_32 env (elementHash env (collator cp) (getIdElement op)) h
         else h)"

definition workerIndex :: "('e, 's) Env \<Rightarrow> nat \<Rightarrow> 'e OplogEntry \<Rightarrow> nat" where
  "workerIndex env W op = unat (routeHash env op mod (of_nat W :: 32 word))"

definition appendAt :: "nat \<Rightarrow> 'a \<Rightarrow> 'a list list \<Rightarrow> 'a list list" where
  "appendAt w p wvs = wvs[w := (wvs ! w) @ [p]]"

text \<open>The state after the parts of the loop body: an entry written through a pointer, the
  state after \<open>processCrudOp\<close> (for a CRUD entry), after \<open>addDerivedOps\<close> on a new vector
  of derived entries, after the session tracker, and after the \<open>abortTransaction\<close> branch.\<close>

fun setOp :: "OpPtr \<Rightarrow> 'e OplogEntry \<Rightarrow> ('e, 's) FillState \<Rightarrow> ('e, 's) FillState" where
  "setOp (InputOp i) x st = st\<lparr>ops := (ops st)[i := x]\<rparr>"
| "setOp (DerivedOp k j) x st = st\<lparr>derivedOps := (derivedOps st)[k := (derivedOps st ! k)[j := x]]\<rparr>"

definition afterCrud ::
  "('e, 's) Env \<Rightarrow> OpPtr \<Rightarrow> 'e OplogEntry \<Rightarrow> ('e, 's) FillState \<Rightarrow> ('e, 's) FillState" where
  "afterCrud env p op st =
     (if isCrudOpType (getOpType op)
      then (setOp p (markCapped env op) st)
             \<lparr>collPropertiesCache := cacheAdd env (getNss op) (collPropertiesCache st)\<rparr>
      else st)"

definition routeDerived ::
  "('e, 's) Env \<Rightarrow> nat \<Rightarrow> 'e OplogEntry list \<Rightarrow> nat \<Rightarrow> OpPtr list list \<Rightarrow> OpPtr list list" where
  "routeDerived env k v n wvs =
     fold (\<lambda>j. appendAt (workerIndex env (length wvs) (v ! j)) (DerivedOp k j)) [0..<n] wvs"

definition emplacedUpTo ::
  "('e, 's) Env \<Rightarrow> 'e OplogEntry list \<Rightarrow> nat \<Rightarrow> ('e, 's) FillState \<Rightarrow> ('e, 's) FillState" where
  "emplacedUpTo env v a st =
     st\<lparr>derivedOps := derivedOps st @ [map (markCapped env) (take a v) @ drop a v],
        writerVectors := routeDerived env (length (derivedOps st)) v a (writerVectors st),
        collPropertiesCache := cacheAfter env (take a v) (collPropertiesCache st)\<rparr>"

definition emplaced ::
  "('e, 's) Env \<Rightarrow> 'e OplogEntry list \<Rightarrow> ('e, 's) FillState \<Rightarrow> ('e, 's) FillState" where
  "emplaced env v st = emplacedUpTo env v (length v) st"

definition tracked ::
  "('e, 's) Env \<Rightarrow> bool \<Rightarrow> 'e OplogEntry \<Rightarrow> ('e, 's) FillState \<Rightarrow> ('e, 's) FillState" where
  "tracked env useTracker op st =
     (if useTracker
      then (case updateSession env (sessionUpdateTracker st) op of
              (None, t') \<Rightarrow> st\<lparr>sessionUpdateTracker := t'\<rparr>
            | (Some v, t') \<Rightarrow> emplaced env v (st\<lparr>sessionUpdateTracker := t'\<rparr>))
      else st)"

definition cleared :: "'e OplogEntry \<Rightarrow> ('e, 's) FillState \<Rightarrow> ('e, 's) FillState" where
  "cleared op st =
     (if getCommandType op = kAbortTransaction
      then (case getSessionId op of
              None \<Rightarrow> st
            | Some sid \<Rightarrow> st\<lparr>partialTxnOps := (partialTxnOps st)(sid \<mapsto> [])\<rparr>)
      else st)"

text \<open>An entry is taken by the transaction handling when it is saved for later or replaced
  by the entries it stands for; an entry is routed when it is above the floor and not
  taken. \<open>stepShape\<close> lists the four ways in which the loop body changes the state.\<close>

definition absorbed :: "Options \<Rightarrow> 'e OplogEntry \<Rightarrow> bool" where
  "absorbed opts op \<longleftrightarrow>
     isPartialTransaction op \<or> (shouldPrepare op \<and> mode opts = kInitialSync) \<or>
     isTerminalApplyOps op \<or> (isPreparedCommit op \<and> mode opts = kInitialSync)"

definition routed :: "Options \<Rightarrow> 'e OplogEntry \<Rightarrow> bool" where
  "routed opts op \<longleftrightarrow>
     \<not> opTime_le (getOpTime op) (beginApplyingOpTime opts) \<and> \<not> absorbed opts op"

definition stepShape ::
  "('e, 's) Env \<Rightarrow> Options \<Rightarrow> bool \<Rightarrow> OpPtr \<Rightarrow> 'e OplogEntry \<Rightarrow> ('e, 's) FillState
     \<Rightarrow> ('e, 's) FillState \<Rightarrow> bool" where
  "stepShape env opts tr p op st st' \<longleftrightarrow>
     (opTime_le (getOpTime op) (beginApplyingOpTime opts) \<and> st' = st) \<or>
     (\<not> opTime_le (getOpTime op) (beginApplyingOpTime opts) \<and> absorbed opts op \<and>
        (\<exists>pm. st' = (tracked env tr op st)\<lparr>partialTxnOps := pm\<rparr>)) \<or>
     (\<not> opTime_le (getOpTime op) (beginApplyingOpTime opts) \<and> absorbed opts op \<and>
        (\<exists>v pm. st' = (emplaced env v (afterCrud env p op (tracked env tr op st)))
                        \<lparr>partialTxnOps := pm\<rparr>)) \<or>
     (routed opts op \<and> (of_nat (length (writerVectors st)) :: 32 word) \<noteq> 0 \<and>
        (\<exists>pm. st' = (afterCrud env p op (tracked env tr op st))
                  \<lparr>writerVectors :=
                     appendAt (workerIndex env (length (writerVectors st)) op) p
                       (writerVectors (tracked env tr op st)),
                   partialTxnOps := pm\<rparr>))"

text \<open>The pointers into the input batch that the writer vectors hold, and an entry without
  its \<open>isForCappedCollection\<close> flag.\<close>

definition isInputOp :: "OpPtr \<Rightarrow> bool" where
  "isInputOp p = (case p of InputOp _ \<Rightarrow> True | DerivedOp _ _ \<Rightarrow> False)"

definition inputPart :: "OpPtr list list \<Rightarrow> OpPtr list list" where
  "inputPart wvs = map (filter isInputOp) wvs"

definition unflag :: "'e OplogEntry \<Rightarrow> 'e OplogEntry" where
  "unflag op = op\<lparr>isForCappedCollection := False\<rparr>"

text \<open>The closed form of the input pointers that a pass over the batch leaves in the
  writer vectors.\<close>

definition routeInput ::
  "('e, 's) Env \<Rightarrow> Options \<Rightarrow> 'e OplogEntry list \<Rightarrow> nat \<Rightarrow> nat \<Rightarrow> OpPtr list list
     \<Rightarrow> OpPtr list list" where
  "routeInput env opts batch W i wvs =
     (if routed opts (batch ! i)
      then appendAt (workerIndex env W (batch ! i)) (InputOp i) wvs else wvs)"

text \<open>\<open>precedes a b xs\<close>: \<open>a\<close> occurs in \<open>xs\<close> and \<open>b\<close> occurs after its first occurrence;
  \<open>present p wvs\<close>: the pointer is in one of the writer vectors.\<close>

fun precedes :: "'a \<Rightarrow> 'a \<Rightarrow> 'a list \<Rightarrow> bool" where
  "precedes a b [] = False"
| "precedes a b (x # xs) = (if x = a then b \<in> set xs else precedes a b xs)"

definition present :: "OpPtr \<Rightarrow> OpPtr list list \<Rightarrow> bool" where
  "present p wvs \<longleftrightarrow> (\<exists>w \<in> set wvs. p \<in> set w)"

text \<open>The invariant of the writer vectors: every pointer in vector \<open>w\<close> points to an entry
  that is marked if it is an insert into a capped collection and whose hash selects \<open>w\<close>.\<close>

definition routedWell :: "('e, 's) Env \<Rightarrow> ('e, 's) FillState \<Rightarrow> bool" where
  "routedWell env st \<longleftrightarrow>
     (\<forall>w < length (writerVectors st). \<forall>p \<in> set (writerVectors st ! w).
        case deref st p of
          None \<Rightarrow> False
        | Some op \<Rightarrow>
            markCapped env op = op \<and> workerIndex env (length (writerVectors st)) op = w)"

text \<open>The transaction handling, entry by entry. An entry is saved for later
  (\<open>buffered\<close>) when it is a partial transaction entry, or a prepare in initial sync. An
  entry that is not saved ends its transaction when it is a terminal \<open>applyOps\<close> with a
  transaction number or, not being one, a prepared commit in initial sync; it empties the
  list saved for its session when it ends the transaction or aborts it.
  \<open>pendingPartial opts batch sid n\<close> is the list of the positions, among the first \<open>n\<close>
  of the batch, of the entries above the floor that are saved for session \<open>sid\<close> and not
  yet discarded by an entry that empties the list.\<close>

definition buffered :: "Options \<Rightarrow> 'e OplogEntry \<Rightarrow> bool" where
  "buffered opts op \<longleftrightarrow> isPartialTransaction op \<or> (shouldPrepare op \<and> mode opts = kInitialSync)"

definition endsTransaction :: "Options \<Rightarrow> 'e OplogEntry \<Rightarrow> bool" where
  "endsTransaction opts op \<longleftrightarrow>
     (isTerminalApplyOps op \<and> getTxnNumber op \<noteq> None) \<or>
     (\<not> isTerminalApplyOps op \<and> isPreparedCommit op \<and> mode opts = kInitialSync)"

definition clearsBuffer :: "Options \<Rightarrow> 'e OplogEntry \<Rightarrow> LogicalSessionId \<Rightarrow> bool" where
  "clearsBuffer opts op sid \<longleftrightarrow>
     getSessionId op = Some sid \<and>
     (getCommandType op = kAbortTransaction \<or> endsTransaction opts op)"

primrec pendingPartial ::
  "Options \<Rightarrow> 'e OplogEntry list \<Rightarrow> LogicalSessionId \<Rightarrow> nat \<Rightarrow> nat list" where
  "pendingPartial opts batch sid 0 = []"
| "pendingPartial opts batch sid (Suc n) =
     (let op = batch ! n; l = pendingPartial opts batch sid n
      in if opTime_le (getOpTime op) (beginApplyingOpTime opts) then l
         else if buffered opts op then (if getSessionId op = Some sid then l @ [n] else l)
         else if clearsBuffer opts op sid then [] else l)"

text \<open>The pointers into the vector \<open>k\<close> of \<open>derivedOps\<close>.\<close>

definition isDerivedOf :: "nat \<Rightarrow> OpPtr \<Rightarrow> bool" where
  "isDerivedOf k p = (case p of InputOp _ \<Rightarrow> False | DerivedOp k' _ \<Rightarrow> k' = k)"

text \<open>Two states of a pass that differ at most in the \<open>isForCappedCollection\<close> flags of the
  entries of the batch; and collaborators (the session tracker and the two functions that
  flatten an entry) whose results do not depend on that flag.\<close>

definition sameButFlags :: "('e, 's) FillState \<Rightarrow> ('e, 's) FillState \<Rightarrow> bool" where
  "sameButFlags a b \<longleftrightarrow>
     map unflag (ops b) = map unflag (ops a) \<and> derivedOps b = derivedOps a \<and>
     writerVectors b = writerVectors a \<and> partialTxnOps b = partialTxnOps a \<and>
     collPropertiesCache b = collPropertiesCache a \<and>
     sessionUpdateTracker b = sessionUpdateTracker a"

definition ignoresCappedFlag :: "('e, 's) Env \<Rightarrow> bool" where
  "ignoresCappedFlag env \<longleftrightarrow>
     (\<forall>t op. updateSession env t (unflag op) = updateSession env t op) \<and>
     (\<forall>op partialOps.
        readTransactionOperationsFromOplogChain env (unflag op) (map unflag partialOps) =
        readTransactionOperationsFromOplogChain env op partialOps) \<and>
     (\<forall>op. extractOperations env (unflag op) = extractOperations env op)"

section \<open>Example inputs\<close>

text \<open>A small catalog (a capped and a plain collection in database \<open>db\<close>), simple hash
  functions, a session tracker that collects one update of \<open>config.transactions\<close> per
  entry with a session and hands them out at the end, and a reader of oplog chains that
  turns every entry of the chain into one insert.\<close>

definition exampleOp :: "OpTypeEnum \<Rightarrow> string \<Rightarrow> nat \<Rightarrow> nat \<Rightarrow> nat OplogEntry" where
  "exampleOp t ns ts i =
     \<lparr>getOpType = t, getNss = ns, getUuid = None,
      getOpTime = \<lparr>opTerm = 1, opTimestamp = ts\<rparr>, getIdElement = i,
      getSessionId = None, getTxnNumber = None, getPrevWriteOpTimeInTransaction = None,
      getCommandType = kNotCommand, isPartialTransaction = False, shouldPrepare = False,
      isPreparedCommit = False, isTerminalApplyOps = False, isForCappedCollection = False\<rparr>"

definition exampleDb :: Database where
  "exampleDb ns =
     (if ns = ''db.cap'' then Some \<lparr>collIsCapped = True, getDefaultCollator = None\<rparr>
      else if ns = ''db.c'' then Some \<lparr>collIsCapped = False, getDefaultCollator = None\<rparr>
      else None)"

definition exampleEnv :: "(nat, nat OplogEntry list) Env" where
  "exampleEnv =
     \<lparr>supportsDocLocking = True,
      getDb = (\<lambda>d. if d = ''db'' then Some exampleDb else None),
      stringMapHash = (\<lambda>s. of_nat (length s)),
      elementHash = (\<lambda>c e. of_nat e),
      murmurHash3_x86_32 = (\<lambda>k seed. ucast k + seed),
      newTracker = [],
      updateSession = (\<lambda>t op. case getSessionId op of
                                 None \<Rightarrow> (None, t)
                               | Some sid \<Rightarrow>
                                   (None, t @ [exampleOp kUpdate ''config.transactions''
                                                 (opTimestamp (getOpTime op)) sid])),
      flushAll = (\<lambda>t. t),
      readTransactionOperationsFromOplogChain =
        (\<lambda>op partialOps.
           map (\<lambda>e. exampleOp kInsert ''db.cap'' (opTimestamp (getOpTime e)) (getIdElement e))
             (partialOps @ [op])),
      extractOperations = (\<lambda>op. [])\<rparr>"

definition exampleOptions :: Options where
  "exampleOptions =
     \<lparr>mode = kSecondary, beginApplyingOpTime = \<lparr>opTerm = 1, opTimestamp = 100\<rparr>,
      allowNamespaceNotFoundErrorsOnCrudOps = False\<rparr>"

text \<open>A batch with an entry at the floor, two entries for one document and an insert into
  the capped collection; the state \<open>fillWriterVectors\<close> returns for it with two writers.\<close>

definition exampleBatch :: "nat OplogEntry list" where
  "exampleBatch =
     [exampleOp kInsert ''db.c'' 100 7, exampleOp kInsert ''db.c'' 101 7,
      exampleOp kUpdate ''db.c'' 102 7, exampleOp kInsert ''db.cap'' 103 1]"

definition exampleResult :: "(nat, nat OplogEntry list) FillState" where
  "exampleResult =
     \<lparr>ops = [exampleOp kInsert ''db.c'' 100 7, exampleOp kInsert ''db.c'' 101 7,
             exampleOp kUpdate ''db.c'' 102 7,
             (exampleOp kInsert ''db.cap'' 103 1)\<lparr>isForCappedCollection := True\<rparr>],
      derivedOps = [],
      writerVectors = [[InputOp 3], [InputOp 1, InputOp 2]],
      partialTxnOps = Map.empty,
      collPropertiesCache =
        [''db.c'' \<mapsto> \<lparr>isCapped = False, collator = None\<rparr>,
         ''db.cap'' \<mapsto> \<lparr>isCapped = True, collator = None\<rparr>],
      sessionUpdateTracker = []\<rparr>"

definition exampleInit :: "(nat, nat OplogEntry list) FillState" where
  "exampleInit = initialFillState exampleEnv exampleBatch (replicate 2 []) []"

text \<open>Scenario S4: two partial transaction entries and the terminal \<open>applyOps\<close> of session
  5; scenario S5: a partial entry, the \<open>abortTransaction\<close> of the session, an insert.\<close>

definition txnOp :: "nat \<Rightarrow> nat \<Rightarrow> bool \<Rightarrow> nat OplogEntry" where
  "txnOp ts i partial =
     (exampleOp kCommand ''admin.$cmd'' ts i)
       \<lparr>getSessionId := Some 5, getTxnNumber := Some 7, getCommandType := kApplyOps,
        isPartialTransaction := partial, isTerminalApplyOps := \<not> partial\<rparr>"

definition txnBatch :: "nat OplogEntry list" where
  "txnBatch = [txnOp 101 1 True, txnOp 102 2 True, txnOp 103 3 False]"

definition abortOp :: "nat \<Rightarrow> nat OplogEntry" where
  "abortOp ts =
     (exampleOp kCommand ''admin.$cmd'' ts 0)
       \<lparr>getSessionId := Some 5, getTxnNumber := Some 7, getCommandType := kAbortTransaction\<rparr>"

definition abortBatch :: "nat OplogEntry list" where
  "abortBatch = [txnOp 101 1 True, abortOp 102, exampleOp kInsert ''db.c'' 103 9]"

definition txnBuffered :: "(nat, nat OplogEntry list) FillState" where
  "txnBuffered =
     \<lparr>ops = txnBatch, derivedOps = [], writerVectors = [[], []],
      partialTxnOps = [5 \<mapsto> [InputOp 0, InputOp 1]],
      collPropertiesCache = Map.empty,
      sessionUpdateTracker =
        [exampleOp kUpdate ''config.transactions'' 101 5,
         exampleOp kUpdate ''config.transactions'' 102 5]\<rparr>"

definition txnResult :: "(nat, nat OplogEntry list) FillState" where
  "txnResult =
     \<lparr>ops = txnBatch,
      derivedOps =
        [[(exampleOp kInsert ''db.cap'' 101 1)\<lparr>isForCappedCollection := True\<rparr>,
          (exampleOp kInsert ''db.cap'' 102 2)\<lparr>isForCappedCollection := True\<rparr>,
          (exampleOp kInsert ''db.cap'' 103 3)\<lparr>isForCappedCollection := True\<rparr>]],
      writerVectors = [[DerivedOp 0 0, DerivedOp 0 1, DerivedOp 0 2], []],
      partialTxnOps = [5 \<mapsto> []],
      collPropertiesCache = [''db.cap'' \<mapsto> \<lparr>isCapped = True, collator = None\<rparr>],
      sessionUpdateTracker =
        [exampleOp kUpdate ''config.transactions'' 101 5,
         exampleOp kUpdate ''config.transactions'' 102 5,
         exampleOp kUpdate ''config.transactions'' 103 5]\<rparr>"

text \<open>The state \<open>fillWriterVectors\<close> returns for the batch of scenario S4.\<close>

definition txnFilled :: "(nat, nat OplogEntry list) FillState" where
  "txnFilled =
     \<lparr>ops = txnBatch,
      derivedOps =
        [[(exampleOp kInsert ''db.cap'' 101 1)\<lparr>isForCappedCollection := True\<rparr>,
          (exampleOp kInsert ''db.cap'' 102 2)\<lparr>isForCappedCollection := True\<rparr>,
          (exampleOp kInsert ''db.cap'' 103 3)\<lparr>isForCappedCollection := True\<rparr>],
         [exampleOp kUpdate ''config.transactions'' 101 5,
          exampleOp kUpdate ''config.transactions'' 102 5,
          exampleOp kUpdate ''config.transactions'' 103 5]],
      writerVectors =
        [[DerivedOp 0 0, DerivedOp 0 1, DerivedOp 0 2, DerivedOp 1 0, DerivedOp 1 1, DerivedOp 1 2],
         []],
      partialTxnOps = Map.empty,
      collPropertiesCache =
        [''config.transactions'' \<mapsto> \<lparr>isCapped = False, collator = None\<rparr>],
      sessionUpdateTracker =
        [exampleOp kUpdate ''config.transactions'' 101 5,
         exampleOp kUpdate ''config.transactions'' 102 5,
         exampleOp kUpdate ''config.transactions'' 103 5]\<rparr>"




text \<open>A second catalog: one more database, the same collection properties.\<close>

definition otherCatalog :: "string \<Rightarrow> Database option" where
  "otherCatalog d =
     (if d = ''db'' then Some exampleDb
      else if d = ''config'' then Some (\<lambda>ns. None)
      else None)"

text \<open>A storage engine for the appliers: the documents present, as pairs of namespace and
  \<open>_id\<close>; only database \<open>db\<close> exists; the insert grouper never forms a group.\<close>

definition exampleApplyEnv :: "(nat, (string \<times> nat) list) ApplyEnv" where
  "exampleApplyEnv =
     \<lparr>autoGetCollection =
        (\<lambda>w loc lm. Returns (case loc of Inl nss \<Rightarrow> nss_db nss = ''db''
                                        | Inr (db, ui) \<Rightarrow> db = ''db'')),
      applyOperation_inlock =
        (\<lambda>w op alwaysUpsert m.
           let doc = (getNss op, getIdElement op)
           in case getOpType op of
                kInsert \<Rightarrow> ((Returns statusOK, 1), doc # w)
              | kUpdate \<Rightarrow>
                  if doc \<in> set w then ((Returns statusOK, 1), w)
                  else if alwaysUpsert then ((Returns statusOK, 1), doc # w)
                  else ((Returns \<lparr>code = UpdateOperationFailed, statusContext = []\<rparr>, 0), w)
              | kDelete \<Rightarrow> ((Returns statusOK, 1), removeAll doc w)
              | _ \<Rightarrow> ((Returns statusOK, 0), w)),
      applyCommand_inlock = (\<lambda>w op m. (Returns statusOK, w)),
      groupAndApplyInserts = (\<lambda>w ops' it m. (None, w)),
      getMultikeyPathInfo = (\<lambda>w. []),
      redactedBSON = getNss\<rparr>"

definition exampleApplyState :: "(string \<times> nat) list ApplyState" where
  "exampleApplyState =
     \<lparr>storage = [], opsAppliedStats = 0, writesAreReplicated = False,
      documentValidationDisabled = True\<rparr>"

text \<open>Entries for a database that does not exist, and scenario S6.\<close>

definition missingDbInsert :: "nat OplogEntry" where
  "missingDbInsert = exampleOp kInsert ''other.c'' 101 1"


definition missingDbException :: Status where
  "missingDbException =
     \<lparr>code = NamespaceNotFound, statusContext = [''missing database (other)'']\<rparr>"

definition initialSyncOptions :: Options where
  "initialSyncOptions = exampleOptions\<lparr>mode := kInitialSync\<rparr>"

definition workerVector :: "nat OplogEntry list" where
  "workerVector = [exampleOp kUpdate ''db.c'' 101 3, exampleOp kDelete ''db.c'' 102 3]"

definition updateFailed :: Status where
  "updateFailed = \<lparr>code = UpdateOperationFailed, statusContext = []\<rparr>"

text \<open>A worker vector with an insert into a database that does not exist, and options
  that allow \<open>NamespaceNotFound\<close> on CRUD entries.\<close>

definition failingVector :: "nat OplogEntry list" where
  "failingVector =
     [missingDbInsert, exampleOp kUpdate ''db.c'' 101 3, exampleOp kDelete ''db.c'' 102 3]"

definition lenientOptions :: Options where
  "lenientOptions = initialSyncOptions\<lparr>allowNamespaceNotFoundErrorsOnCrudOps := True\<rparr>"

text \<open>A caller of the worker that replicates its writes and validates documents.\<close>

definition callerState :: "(string \<times> nat) list ApplyState" where
  "callerState =
     exampleApplyState\<lparr>writesAreReplicated := True, documentValidationDisabled := False\<rparr>"

section \<open>The closed forms are what the code computes\<close>

lemma cacheValid_empty: "cacheValid env Map.empty"
  by (simp add: cacheValid_def)

lemma cacheValid_cacheAdd: "cacheValid env c \<Longrightarrow> cacheValid env (cacheAdd env ns c)"
  by (auto simp: cacheValid_def cacheAdd_def split: option.splits)

lemma getCollectionProperties_eq:
  "cacheValid env (collPropertiesCache st) \<Longrightarrow>
   getCollectionProperties env ns st =
     (getCollectionPropertiesImpl env ns,
      st\<lparr>collPropertiesCache := cacheAdd env ns (collPropertiesCache st)\<rparr>)"
  by (auto simp: getCollectionProperties_def cacheValid_def cacheAdd_def Let_def split: option.splits)

lemma markCapped_fields:
  "getNss (markCapped env op) = getNss op"
  "getOpType (markCapped env op) = getOpType op"
  "getIdElement (markCapped env op) = getIdElement op"
  by (simp_all add: markCapped_def)

lemma markCapped_idem: "markCapped env (markCapped env op) = markCapped env op"
  by (simp add: markCapped_def)

lemma routeHash_markCapped: "routeHash env (markCapped env op) = routeHash env op"
  by (simp add: routeHash_def markCapped_fields Let_def)

lemma workerIndex_less:
  "(of_nat W :: 32 word) \<noteq> 0 \<Longrightarrow> workerIndex env W op < W"
proof -
  assume nz: "(of_nat W :: 32 word) \<noteq> 0"
  have "unat (routeHash env op mod (of_nat W :: 32 word)) < unat (of_nat W :: 32 word)"
    using nz by (simp add: unat_mod unat_gt_0)
  also have "unat (of_nat W :: 32 word) \<le> W"
    by (simp add: unat_of_nat)
  finally show ?thesis by (simp add: workerIndex_def)
qed

lemma setOp_same: "deref st p = Some op \<Longrightarrow> setOp p op st = st"
  by (cases p) (auto split: if_splits)

lemma markForCapped_setOp:
  "deref st p = Some op \<Longrightarrow> markForCapped p st = setOp p (op\<lparr>isForCappedCollection := True\<rparr>) st"
  by (cases p) (auto split: if_splits)

lemma deref_cache_update [simp]:
  "deref (st\<lparr>collPropertiesCache := c\<rparr>) p = deref st p"
  by (cases p) auto

lemma setOp_cache_update:
  "setOp p x (st\<lparr>collPropertiesCache := c\<rparr>) = (setOp p x st)\<lparr>collPropertiesCache := c\<rparr>"
  by (cases p) auto

lemma hash_and_process_eq:
  assumes "cacheValid env (collPropertiesCache st)" and "deref st p = Some op"
  shows "(if isCrudOpType (getOpType op)
          then processCrudOp env p op (ucast (stringMapHash env (getNss op))) st
          else (ucast (stringMapHash env (getNss op)), st)) =
         (routeHash env op, afterCrud env p op st)"
proof (cases "isCrudOpType (getOpType op)")
  case False
  then show ?thesis by (simp add: routeHash_def afterCrud_def Let_def)
next
  case True
  have ins: "getOpType op = kInsert \<Longrightarrow> isCrudOpType (getOpType op)"
    by (simp add: isCrudOpType_def)
  show ?thesis
    using True assms
    by (simp add: processCrudOp_def getCollectionProperties_eq routeHash_def afterCrud_def
        Let_def markCapped_def markForCapped_setOp setOp_cache_update setOp_same)
qed

lemma addDerivedOp_eq:
  assumes "cacheValid env (collPropertiesCache st)"
  shows "addDerivedOp env p st =
     (case deref st p of
        None \<Rightarrow> Inl DanglingPointer
      | Some op \<Rightarrow> addToWriterVector p (routeHash env op) (afterCrud env p op st))"
proof (cases "deref st p")
  case None
  then show ?thesis by (simp add: addDerivedOp_def)
next
  case (Some op)
  have "addDerivedOp env p st =
      (case (if isCrudOpType (getOpType op)
          then processCrudOp env p op (ucast (stringMapHash env (getNss op))) st
          else (ucast (stringMapHash env (getNss op)), st)) of
         (h, s) \<Rightarrow> addToWriterVector p h s)"
    using Some by (simp add: addDerivedOp_def Let_def)
  then show ?thesis
    using Some by (simp add: hash_and_process_eq [OF assms Some])
qed

lemma addToWriterVector_Inr:
  "addToWriterVector p h st = Inr st' \<Longrightarrow>
   st' = st\<lparr>writerVectors :=
            appendAt (unat (h mod (of_nat (length (writerVectors st)) :: 32 word))) p
              (writerVectors st)\<rparr>"
  by (auto simp: addToWriterVector_def appendAt_def Let_def split: if_splits)

lemma addToWriterVector_Inr_numWriters:
  "addToWriterVector p h st = Inr st' \<Longrightarrow>
   (of_nat (length (writerVectors st)) :: 32 word) \<noteq> 0"
  by (auto simp: addToWriterVector_def Let_def split: if_splits)

lemma length_appendAt [simp]: "length (appendAt w p wvs) = length wvs"
  by (simp add: appendAt_def)

lemma length_routeDerived [simp]: "length (routeDerived env k v n wvs) = length wvs"
proof -
  have "length (fold (\<lambda>j. appendAt (f j) (g j)) js wvs) = length wvs" for f g js
    and wvs :: "OpPtr list list"
    by (induction js arbitrary: wvs) auto
  then show ?thesis by (simp add: routeDerived_def)
qed

lemma routeDerived_Suc:
  "routeDerived env k v (Suc n) wvs =
     appendAt (workerIndex env (length wvs) (v ! n)) (DerivedOp k n) (routeDerived env k v n wvs)"
  by (simp add: routeDerived_def)

lemma cacheAfter_snoc:
  "cacheAfter env (v @ [x]) c =
     (if isCrudOpType (getOpType x) then cacheAdd env (getNss x) (cacheAfter env v c)
      else cacheAfter env v c)"
  by (simp add: cacheAfter_def)

lemma cacheValid_cacheAfter: "cacheValid env c \<Longrightarrow> cacheValid env (cacheAfter env v c)"
  by (induction v rule: rev_induct) (simp_all add: cacheAfter_snoc cacheValid_cacheAdd, simp add: cacheAfter_def)

lemma mark_take_Suc:
  assumes "a < length v"
  shows "(map f (take a v) @ drop a v)[a := f (v ! a)] = map f (take (Suc a) v) @ drop (Suc a) v"
proof -
  have "drop a v = v ! a # drop (Suc a) v"
    using assms by (simp add: Cons_nth_drop_Suc)
  moreover have "length (map f (take a v)) = a"
    using assms by simp
  ultimately show ?thesis
    using assms by (simp add: take_Suc_conv_app_nth list_update_append)
qed

lemma mark_take_nth:
  assumes "a < length v"
  shows "(map f (take a v) @ drop a v) ! a = v ! a"
  using assms by (simp add: nth_append)

lemma addDerivedOp_emplacedUpTo:
  assumes cv: "cacheValid env (collPropertiesCache st)" and a: "a < length v"
    and r: "addDerivedOp env (DerivedOp (length (derivedOps st)) a) (emplacedUpTo env v a st) = Inr st'"
  shows "st' = emplacedUpTo env v (Suc a) st"
proof -
  let ?k = "length (derivedOps st)"
  let ?E = "emplacedUpTo env v a st"
  have cv': "cacheValid env (collPropertiesCache ?E)"
    using cv by (simp add: emplacedUpTo_def cacheValid_cacheAfter)
  have d: "deref ?E (DerivedOp ?k a) = Some (v ! a)"
    using a by (simp add: emplacedUpTo_def mark_take_nth)
  from r have "addToWriterVector (DerivedOp ?k a) (routeHash env (v ! a))
                 (afterCrud env (DerivedOp ?k a) (v ! a) ?E) = Inr st'"
    by (simp only: addDerivedOp_eq [OF cv'] d option.case)
  from addToWriterVector_Inr [OF this]
  have st': "st' = (afterCrud env (DerivedOp ?k a) (v ! a) ?E)
      \<lparr>writerVectors := appendAt (workerIndex env (length (writerVectors st)) (v ! a))
          (DerivedOp ?k a) (writerVectors (afterCrud env (DerivedOp ?k a) (v ! a) ?E))\<rparr>"
    by (simp add: workerIndex_def afterCrud_def emplacedUpTo_def)
  have tk: "take (Suc a) v = take a v @ [v ! a]"
    using a by (simp add: take_Suc_conv_app_nth)
  have nomark: "\<not> isCrudOpType (getOpType (v ! a)) \<Longrightarrow> markCapped env (v ! a) = v ! a"
    by (auto simp: markCapped_def isCrudOpType_def)
  show ?thesis
  proof (cases "isCrudOpType (getOpType (v ! a))")
    case True
    then show ?thesis
      unfolding st'
      by (simp add: afterCrud_def emplacedUpTo_def routeDerived_Suc mark_take_Suc [OF a]
          tk cacheAfter_snoc del: take_Suc_conv_app_nth)
  next
    case False
    have "map (markCapped env) (take a v) @ drop a v
         = (map (markCapped env) (take a v) @ drop a v)[a := markCapped env (v ! a)]"
      using mark_take_nth [OF a, of "markCapped env"]
      by (simp only: nomark [OF False]) (metis list_update_id)
    also have "\<dots> = map (markCapped env) (take (Suc a) v) @ drop (Suc a) v"
      by (rule mark_take_Suc [OF a])
    finally have eq: "map (markCapped env) (take a v) @ drop a v
        = map (markCapped env) (take (Suc a) v) @ drop (Suc a) v" .
    show ?thesis
      unfolding st' using False
      by (simp add: afterCrud_def emplacedUpTo_def routeDerived_Suc eq
          tk cacheAfter_snoc del: take_Suc_conv_app_nth)
  qed
qed

lemma forEachOp_emplacedUpTo:
  assumes cv: "cacheValid env (collPropertiesCache st)"
  shows "a \<le> length v \<Longrightarrow>
     forEachOp (addDerivedOp env) (map (DerivedOp (length (derivedOps st))) [a..<length v])
       (emplacedUpTo env v a st) = Inr st' \<Longrightarrow>
     st' = emplaced env v st"
proof (induction "length v - a" arbitrary: a)
  case 0
  then show ?case by (simp add: emplaced_def)
next
  case (Suc n)
  then have a: "a < length v" by simp
  have upt: "[a..<length v] = a # [Suc a..<length v]"
    using a by (simp add: upt_conv_Cons)
  from Suc.prems(2) obtain s1 where
    s1: "addDerivedOp env (DerivedOp (length (derivedOps st)) a) (emplacedUpTo env v a st) = Inr s1"
    and rest: "forEachOp (addDerivedOp env)
       (map (DerivedOp (length (derivedOps st))) [Suc a..<length v]) s1 = Inr st'"
    by (auto simp: upt split: sum.splits)
  have "s1 = emplacedUpTo env v (Suc a) st"
    by (rule addDerivedOp_emplacedUpTo [OF cv a s1])
  with rest Suc.hyps(1) [of "Suc a"] Suc.hyps(2) a show ?case by simp
qed

lemma emplaceAndAddDerivedOps_Inr:
  assumes "cacheValid env (collPropertiesCache st)"
    and "emplaceAndAddDerivedOps env v st = Inr st'"
  shows "st' = emplaced env v st"
proof -
  have "st\<lparr>derivedOps := derivedOps st @ [v]\<rparr> = emplacedUpTo env v 0 st"
    by (simp add: emplacedUpTo_def routeDerived_def cacheAfter_def)
  with assms(2) show ?thesis
    using forEachOp_emplacedUpTo [OF assms(1), of 0 v st']
    by (simp add: emplaceAndAddDerivedOps_def Let_def)
qed

lemma emplaced_simps [simp]:
  "ops (emplaced env v st) = ops st"
  "derivedOps (emplaced env v st) = derivedOps st @ [map (markCapped env) v]"
  "writerVectors (emplaced env v st) =
     routeDerived env (length (derivedOps st)) v (length v) (writerVectors st)"
  "partialTxnOps (emplaced env v st) = partialTxnOps st"
  "sessionUpdateTracker (emplaced env v st) = sessionUpdateTracker st"
  "collPropertiesCache (emplaced env v st) = cacheAfter env v (collPropertiesCache st)"
  by (simp_all add: emplaced_def emplacedUpTo_def)

lemma emplaced_partial_update:
  "emplaced env v (st\<lparr>partialTxnOps := pm\<rparr>) = (emplaced env v st)\<lparr>partialTxnOps := pm\<rparr>"
  by (simp add: emplaced_def emplacedUpTo_def)

lemma trackSession_Inr:
  assumes "cacheValid env (collPropertiesCache st)"
    and "trackSession env useTracker op st = Inr st1"
  shows "st1 = tracked env useTracker op st"
proof (cases useTracker)
  case False
  with assms(2) show ?thesis by (simp add: trackSession_def tracked_def)
next
  case True
  obtain w t' where u: "updateSession env (sessionUpdateTracker st) op = (w, t')"
    by (cases "updateSession env (sessionUpdateTracker st) op")
  show ?thesis
  proof (cases w)
    case None
    with assms(2) True u show ?thesis by (simp add: trackSession_def tracked_def)
  next
    case (Some v)
    with assms(2) True u
    have "emplaceAndAddDerivedOps env v (st\<lparr>sessionUpdateTracker := t'\<rparr>) = Inr st1"
      by (simp add: trackSession_def)
    from emplaceAndAddDerivedOps_Inr [OF _ this] assms(1)
    show ?thesis using True u Some by (simp add: tracked_def)
  qed
qed

lemma tracked_simps [simp]:
  "ops (tracked env tr op st) = ops st"
  "partialTxnOps (tracked env tr op st) = partialTxnOps st"
  "length (writerVectors (tracked env tr op st)) = length (writerVectors st)"
  by (auto simp: tracked_def split: prod.splits option.splits)

lemma cacheValid_tracked:
  "cacheValid env (collPropertiesCache st) \<Longrightarrow>
   cacheValid env (collPropertiesCache (tracked env tr op st))"
  by (auto simp: tracked_def cacheValid_cacheAfter split: prod.splits option.splits)

lemma deref_emplaced:
  "deref st p = Some op \<Longrightarrow> deref (emplaced env v st) p = Some op"
  by (cases p) (auto simp: nth_append split: if_splits)

lemma deref_tracker_update [simp]:
  "deref (st\<lparr>sessionUpdateTracker := t\<rparr>) p = deref st p"
  by (cases p) auto

lemma deref_partial_update [simp]:
  "deref (st\<lparr>partialTxnOps := pm\<rparr>) p = deref st p"
  by (cases p) auto

lemma deref_wv_update [simp]:
  "deref (st\<lparr>writerVectors := w\<rparr>) p = deref st p"
  by (cases p) auto

lemma deref_tracked:
  "deref st p = Some op \<Longrightarrow> deref (tracked env tr op' st) p = Some op"
  by (auto simp: tracked_def deref_emplaced split: prod.splits option.splits)

lemma deref_cleared [simp]: "deref (cleared op' st) p = deref st p"
  by (simp add: cleared_def split: option.splits)

lemma cleared_simps [simp]:
  "ops (cleared op st) = ops st"
  "derivedOps (cleared op st) = derivedOps st"
  "writerVectors (cleared op st) = writerVectors st"
  "collPropertiesCache (cleared op st) = collPropertiesCache st"
  "sessionUpdateTracker (cleared op st) = sessionUpdateTracker st"
  by (simp_all add: cleared_def split: option.splits)

lemma clearOnAbort_Inr: "clearOnAbort op st = Inr st1 \<Longrightarrow> st1 = cleared op st"
  by (auto simp: clearOnAbort_def cleared_def split: if_splits option.splits)

lemma markCapped_noncrud:
  "\<not> isCrudOpType (getOpType op) \<Longrightarrow> markCapped env op = op"
  by (auto simp: markCapped_def isCrudOpType_def)

lemma deref_setOp_same:
  "deref st p = Some op \<Longrightarrow> deref (setOp p x st) p = Some x"
  by (cases p) (auto split: if_splits)

lemma deref_afterCrud_same:
  "deref st p = Some op \<Longrightarrow> deref (afterCrud env p op st) p = Some (markCapped env op)"
  by (simp add: afterCrud_def deref_setOp_same markCapped_noncrud)

lemma afterCrud_simps [simp]:
  "writerVectors (afterCrud env p op st) = writerVectors st"
  "partialTxnOps (afterCrud env p op st) = partialTxnOps st"
  "sessionUpdateTracker (afterCrud env p op st) = sessionUpdateTracker st"
  by (cases p; simp add: afterCrud_def)+

lemma cacheValid_afterCrud:
  "cacheValid env (collPropertiesCache st) \<Longrightarrow>
   cacheValid env (collPropertiesCache (afterCrud env p op st))"
  by (cases p) (auto simp: afterCrud_def cacheValid_cacheAdd)

lemma markCapped_flags [simp]:
  "isTerminalApplyOps (markCapped env op) = isTerminalApplyOps op"
  "isPreparedCommit (markCapped env op) = isPreparedCommit op"
  "isPartialTransaction (markCapped env op) = isPartialTransaction op"
  "shouldPrepare (markCapped env op) = shouldPrepare op"
  "getSessionId (markCapped env op) = getSessionId op"
  "getTxnNumber (markCapped env op) = getTxnNumber op"
  "getPrevWriteOpTimeInTransaction (markCapped env op) = getPrevWriteOpTimeInTransaction op"
  "getCommandType (markCapped env op) = getCommandType op"
  "getOpTime (markCapped env op) = getOpTime op"
  "getUuid (markCapped env op) = getUuid op"
  by (simp_all add: markCapped_def)

text \<open>The part of \<open>routeOp\<close> after \<open>processCrudOp\<close>, on the state it leaves.\<close>

lemma routeOp_unbuffered:
  assumes cv: "cacheValid env (collPropertiesCache st)" and d: "deref st p = Some op"
    and nb: "\<not> (isPartialTransaction op \<or> (shouldPrepare op \<and> mode opts = kInitialSync))"
    and r: "routeOp env opts p op st = Inr st'"
  shows "(let A = afterCrud env p op (cleared op st); op' = markCapped env op
          in if isTerminalApplyOps op
             then (case getSessionId op of
                     Some sid \<Rightarrow>
                       if getTxnNumber op \<noteq> None then materializeTransaction env op' sid A
                       else if getPrevWriteOpTimeInTransaction op \<noteq> None then Inl InvariantFailure
                       else emplaceAndAddDerivedOps env (extractOperations env op') A
                   | None \<Rightarrow>
                       if getPrevWriteOpTimeInTransaction op \<noteq> None then Inl InvariantFailure
                       else emplaceAndAddDerivedOps env (extractOperations env op') A)
             else if isPreparedCommit op \<and> mode opts = kInitialSync
             then (case getSessionId op of
                     None \<Rightarrow> Inl EmptyOptional
                   | Some sid \<Rightarrow> materializeTransaction env op' sid A)
             else addToWriterVector p (routeHash env op) A) = Inr st'"
proof -
  from r nb obtain st1 where c: "clearOnAbort op st = Inr st1"
    by (auto simp: routeOp_def split: sum.splits)
  have st1: "st1 = cleared op st" by (rule clearOnAbort_Inr [OF c])
  have cv1: "cacheValid env (collPropertiesCache (cleared op st))" using cv by simp
  have d1: "deref (cleared op st) p = Some op" using d by simp
  note hp = hash_and_process_eq [OF cv1 d1]
  have d2: "deref (afterCrud env p op (cleared op st)) p = Some (markCapped env op)"
    by (rule deref_afterCrud_same [OF d1])
  from r nb c show ?thesis
    unfolding routeOp_def st1
    by (simp only: if_False sum.case hp prod.case d2 option.case Let_def markCapped_flags)
qed

lemma materializeTransaction_Inr:
  assumes "cacheValid env (collPropertiesCache A)"
    and "materializeTransaction env op' sid A = Inr st'"
  shows "\<exists>partialOps. those (map (deref A) (partialTxnList A sid)) = Some partialOps \<and>
           st' = emplaced env (readTransactionOperationsFromOplogChain env op' partialOps)
                   (A\<lparr>partialTxnOps := (partialTxnOps A)(sid \<mapsto> [])\<rparr>)"
proof -
  from assms(2) obtain partialOps where
    t: "those (map (deref A) (partialTxnList A sid)) = Some partialOps"
    and e: "emplaceAndAddDerivedOps env
              (readTransactionOperationsFromOplogChain env op' partialOps)
              (A\<lparr>partialTxnOps := (partialTxnOps A)(sid \<mapsto> [])\<rparr>) = Inr st'"
    by (auto simp: materializeTransaction_def split: option.splits)
  from emplaceAndAddDerivedOps_Inr [OF _ e] assms(1) t show ?thesis by simp
qed

lemma setOp_partial_update:
  "setOp p x (st\<lparr>partialTxnOps := pm\<rparr>) = (setOp p x st)\<lparr>partialTxnOps := pm\<rparr>"
  by (cases p) auto

lemma afterCrud_partial_update:
  "afterCrud env p op (st\<lparr>partialTxnOps := pm\<rparr>) = (afterCrud env p op st)\<lparr>partialTxnOps := pm\<rparr>"
  by (simp add: afterCrud_def setOp_partial_update)

lemma cleared_as_update: "\<exists>pm. cleared op st = st\<lparr>partialTxnOps := pm\<rparr>"
proof (cases "getCommandType op = kAbortTransaction \<and> getSessionId op \<noteq> None")
  case True
  then show ?thesis by (auto simp: cleared_def)
next
  case False
  then have "cleared op st = st\<lparr>partialTxnOps := partialTxnOps st\<rparr>"
    by (auto simp: cleared_def)
  then show ?thesis by blast
qed

lemma bufferPartialTxnOp_Inr:
  assumes "bufferPartialTxnOp p op st = Inr st'"
  shows "\<exists>sid. getSessionId op = Some sid \<and>
           st' = st\<lparr>partialTxnOps := (partialTxnOps st)(sid \<mapsto> partialTxnList st sid @ [p])\<rparr>"
  using assms
  by (auto simp: bufferPartialTxnOp_def Let_def split: option.splits list.splits if_splits)

lemma deriveOp_shape:
  assumes cv: "cacheValid env (collPropertiesCache st)"
    and r: "deriveOp env opts tr p st = Inr st'"
  shows "\<exists>op. deref st p = Some op \<and> stepShape env opts tr p op st st'"
proof -
  from r obtain op where d: "deref st p = Some op"
    by (auto simp: deriveOp_def split: option.splits)
  let ?T = "tracked env tr op st"
  show ?thesis
  proof (cases "opTime_le (getOpTime op) (beginApplyingOpTime opts)")
    case True
    with r d have "st' = st" by (simp add: deriveOp_def)
    with True d show ?thesis by (auto simp: stepShape_def)
  next
    case nf: False
    from r d nf obtain st1 where t: "trackSession env tr op st = Inr st1"
      and ro: "routeOp env opts p op st1 = Inr st'"
      by (auto simp: deriveOp_def split: sum.splits)
    have st1: "st1 = ?T" by (rule trackSession_Inr [OF cv t])
    have cvT: "cacheValid env (collPropertiesCache ?T)" by (rule cacheValid_tracked [OF cv])
    have dT: "deref ?T p = Some op" by (rule deref_tracked [OF d])
    show ?thesis
    proof (cases "isPartialTransaction op \<or> (shouldPrepare op \<and> mode opts = kInitialSync)")
      case True
      with ro have "bufferPartialTxnOp p op ?T = Inr st'" by (simp add: routeOp_def st1)
      from bufferPartialTxnOp_Inr [OF this] True nf d show ?thesis
        by (auto simp: stepShape_def absorbed_def)
    next
      case nb: False
      obtain pm0 where cl: "cleared op ?T = ?T\<lparr>partialTxnOps := pm0\<rparr>"
        using cleared_as_update by blast
      let ?A = "afterCrud env p op (cleared op ?T)"
      have A: "?A = (afterCrud env p op ?T)\<lparr>partialTxnOps := pm0\<rparr>"
        by (simp add: cl afterCrud_partial_update)
      have cvA: "cacheValid env (collPropertiesCache ?A)"
        using cvT by (simp add: cacheValid_afterCrud)
      note u = routeOp_unbuffered [OF cvT dT nb ro [unfolded st1], unfolded Let_def]
      have flatM: "\<exists>v pm. st' = (emplaced env v (afterCrud env p op ?T))\<lparr>partialTxnOps := pm\<rparr>"
        if m: "materializeTransaction env op' sid ?A = Inr st'" for op' sid
      proof -
        from materializeTransaction_Inr [OF cvA m] obtain v pm where
          "st' = emplaced env v (?A\<lparr>partialTxnOps := pm\<rparr>)" by blast
        then have "st' = (emplaced env v (afterCrud env p op ?T))\<lparr>partialTxnOps := pm\<rparr>"
          by (simp add: A emplaced_partial_update)
        then show ?thesis by blast
      qed
      have flatE: "\<exists>v pm. st' = (emplaced env v (afterCrud env p op ?T))\<lparr>partialTxnOps := pm\<rparr>"
        if e: "emplaceAndAddDerivedOps env w ?A = Inr st'" for w
      proof -
        from emplaceAndAddDerivedOps_Inr [OF cvA e]
        have "st' = (emplaced env w (afterCrud env p op ?T))\<lparr>partialTxnOps := pm0\<rparr>"
          by (simp add: A emplaced_partial_update)
        then show ?thesis by blast
      qed
      show ?thesis
      proof (cases "isTerminalApplyOps op \<or> (isPreparedCommit op \<and> mode opts = kInitialSync)")
        case True
        have "\<exists>v pm. st' = (emplaced env v (afterCrud env p op ?T))\<lparr>partialTxnOps := pm\<rparr>"
        proof (cases "isTerminalApplyOps op")
          case t: True
          show ?thesis
          proof (cases "getSessionId op")
            case None
            with u t show ?thesis by (auto split: if_splits intro: flatE)
          next
            case (Some sid)
            with u t show ?thesis by (auto split: if_splits intro: flatE flatM)
          qed
        next
          case nt: False
          with u True show ?thesis by (auto split: option.splits if_splits intro: flatM)
        qed
        with True nf d show ?thesis by (auto simp: stepShape_def absorbed_def)
      next
        case False
        with u have aw: "addToWriterVector p (routeHash env op) ?A = Inr st'" by auto
        have nz: "(of_nat (length (writerVectors st)) :: 32 word) \<noteq> 0"
          using addToWriterVector_Inr_numWriters [OF aw] by simp
        from addToWriterVector_Inr [OF aw]
        have "st' = (afterCrud env p op ?T)
                  \<lparr>writerVectors :=
                     appendAt (workerIndex env (length (writerVectors st)) op) p
                       (writerVectors ?T),
                   partialTxnOps := pm0\<rparr>"
          by (simp add: A workerIndex_def)
        moreover have "routed opts op" using False nb nf by (simp add: routed_def absorbed_def)
        ultimately show ?thesis using d nz by (auto simp: stepShape_def)
      qed
    qed
  qed
qed

lemma isInputOp_simps [simp]: "isInputOp (InputOp i)" "\<not> isInputOp (DerivedOp k j)"
  by (simp_all add: isInputOp_def)

lemma length_inputPart [simp]: "length (inputPart wvs) = length wvs"
  by (simp add: inputPart_def)

lemma inputPart_appendAt:
  "inputPart (appendAt w p wvs) =
     (if isInputOp p then appendAt w p (inputPart wvs) else inputPart wvs)"
proof (cases "w < length wvs")
  case True
  then show ?thesis
    by (auto simp: inputPart_def appendAt_def map_update list_update_same_conv)
next
  case False
  then show ?thesis by (simp add: inputPart_def appendAt_def list_update_beyond)
qed

lemma inputPart_routeDerived [simp]:
  "inputPart (routeDerived env k v n wvs) = inputPart wvs"
  by (induction n) (simp_all add: routeDerived_Suc inputPart_appendAt, simp add: routeDerived_def)

lemma inputPart_tracked [simp]:
  "inputPart (writerVectors (tracked env tr op st)) = inputPart (writerVectors st)"
  by (auto simp: tracked_def split: prod.splits option.splits)

lemma ops_afterCrud:
  "deref st p = Some op \<Longrightarrow>
   ops (afterCrud env p op st) = ops st \<or>
   (\<exists>i. p = InputOp i \<and> i < length (ops st) \<and> ops st ! i = op \<and>
        ops (afterCrud env p op st) = (ops st)[i := markCapped env op])"
  by (cases p) (auto simp: afterCrud_def split: if_splits)

lemma stepShape_effect:
  assumes cv: "cacheValid env (collPropertiesCache st)" and d: "deref st p = Some op"
    and s: "stepShape env opts tr p op st st'"
  shows "cacheValid env (collPropertiesCache st')"
    and "length (writerVectors st') = length (writerVectors st)"
    and "inputPart (writerVectors st') =
           (if isInputOp p \<and> routed opts op
            then appendAt (workerIndex env (length (writerVectors st)) op) p
                   (inputPart (writerVectors st))
            else inputPart (writerVectors st))"
    and "ops st' = ops st \<or>
         (\<exists>i. p = InputOp i \<and> i < length (ops st) \<and> ops st ! i = op \<and>
              ops st' = (ops st)[i := markCapped env op])"
proof -
  let ?T = "tracked env tr op st"
  have cvT: "cacheValid env (collPropertiesCache ?T)" by (rule cacheValid_tracked [OF cv])
  have dT: "deref ?T p = Some op" by (rule deref_tracked [OF d])
  note oa = ops_afterCrud [OF dT, of env]
  from s cv cvT show "cacheValid env (collPropertiesCache st')"
    by (auto simp: stepShape_def cacheValid_afterCrud cacheValid_cacheAfter)
  from s show "length (writerVectors st') = length (writerVectors st)"
    by (auto simp: stepShape_def)
  from s show "inputPart (writerVectors st') =
           (if isInputOp p \<and> routed opts op
            then appendAt (workerIndex env (length (writerVectors st)) op) p
                   (inputPart (writerVectors st))
            else inputPart (writerVectors st))"
    by (auto simp: stepShape_def routed_def inputPart_appendAt)
  from s oa show "ops st' = ops st \<or>
         (\<exists>i. p = InputOp i \<and> i < length (ops st) \<and> ops st ! i = op \<and>
              ops st' = (ops st)[i := markCapped env op])"
    by (auto simp: stepShape_def)
qed

lemma stepShape_numWriters:
  "stepShape env opts tr p op st st' \<Longrightarrow> routed opts op \<Longrightarrow>
   (of_nat (length (writerVectors st)) :: 32 word) \<noteq> 0"
  by (auto simp: stepShape_def routed_def)

lemma unflag_markCapped [simp]: "unflag (markCapped env op) = unflag op"
  by (simp add: unflag_def markCapped_def)

lemma routed_unflag: "routed opts (unflag op) = routed opts op"
  by (simp add: routed_def absorbed_def unflag_def)

lemma workerIndex_unflag: "workerIndex env W (unflag op) = workerIndex env W op"
  by (simp add: workerIndex_def routeHash_def unflag_def Let_def)

lemma routed_cong: "unflag a = unflag b \<Longrightarrow> routed opts a = routed opts b"
  by (metis routed_unflag)

lemma workerIndex_cong: "unflag a = unflag b \<Longrightarrow> workerIndex env W a = workerIndex env W b"
  by (metis workerIndex_unflag)

lemma length_routeInput [simp]: "length (routeInput env opts batch W i wvs) = length wvs"
  by (simp add: routeInput_def)

lemma map_unflag_update:
  assumes "map unflag xs = map unflag batch" and "i < length xs" and "xs ! i = op"
  shows "map unflag (xs[i := markCapped env op]) = map unflag batch"
proof -
  have "map unflag (xs[i := markCapped env op]) = (map unflag xs)[i := unflag (xs ! i)]"
    using assms by (simp add: map_update)
  also have "\<dots> = (map unflag xs)[i := map unflag xs ! i]"
    using assms(2) by simp
  also have "\<dots> = map unflag xs"
    by (rule list_update_id)
  finally show ?thesis using assms(1) by simp
qed

lemma pass_input:
  assumes "forEachOp (deriveOp env opts tr) (map InputOp is) st = Inr st'"
    and "cacheValid env (collPropertiesCache st)"
    and "map unflag (ops st) = map unflag batch"
  shows "inputPart (writerVectors st') =
           fold (routeInput env opts batch (length (writerVectors st))) is
             (inputPart (writerVectors st)) \<and>
         map unflag (ops st') = map unflag batch \<and>
         length (writerVectors st') = length (writerVectors st) \<and>
         cacheValid env (collPropertiesCache st') \<and>
         ((\<exists>i \<in> set is. routed opts (batch ! i)) \<longrightarrow>
            (of_nat (length (writerVectors st)) :: 32 word) \<noteq> 0)"
  using assms
proof (induction "is" arbitrary: st)
  case Nil
  then show ?case by simp
next
  case (Cons i "is")
  from Cons.prems(1) obtain s1 where
    s1: "deriveOp env opts tr (InputOp i) st = Inr s1"
    and rest: "forEachOp (deriveOp env opts tr) (map InputOp is) s1 = Inr st'"
    by (auto split: sum.splits)
  from deriveOp_shape [OF Cons.prems(2) s1] obtain op where
    d: "deref st (InputOp i) = Some op" and sh: "stepShape env opts tr (InputOp i) op st s1"
    by blast
  note eff = stepShape_effect [OF Cons.prems(2) d sh]
  from d have i: "i < length (ops st)" and op: "ops st ! i = op"
    by (auto split: if_splits)
  have uf: "unflag op = unflag (batch ! i)"
    using Cons.prems(3) i op by (metis length_map nth_map)
  have r: "routed opts op = routed opts (batch ! i)"
    and w: "workerIndex env (length (writerVectors st)) op
          = workerIndex env (length (writerVectors st)) (batch ! i)"
    by (rule routed_cong [OF uf]) (rule workerIndex_cong [OF uf])
  have fr: "map unflag (ops s1) = map unflag batch"
    using eff(4) Cons.prems(3) by (auto simp: map_unflag_update)
  have ip: "inputPart (writerVectors s1)
      = routeInput env opts batch (length (writerVectors st)) i (inputPart (writerVectors st))"
    using eff(3) r w by (simp add: routeInput_def)
  have nz: "routed opts (batch ! i) \<Longrightarrow>
      (of_nat (length (writerVectors st)) :: 32 word) \<noteq> 0"
    using stepShape_numWriters [OF sh] r by simp
  from Cons.IH [OF rest eff(1) fr] ip eff(2) nz show ?case by auto
qed

lemma pass_derived:
  assumes "forEachOp (deriveOp env opts tr) (map (DerivedOp k) js) st = Inr st'"
    and "cacheValid env (collPropertiesCache st)"
  shows "inputPart (writerVectors st') = inputPart (writerVectors st) \<and>
         ops st' = ops st \<and>
         length (writerVectors st') = length (writerVectors st)"
  using assms
proof (induction js arbitrary: st)
  case Nil
  then show ?case by simp
next
  case (Cons j js)
  from Cons.prems(1) obtain s1 where
    s1: "deriveOp env opts tr (DerivedOp k j) st = Inr s1"
    and rest: "forEachOp (deriveOp env opts tr) (map (DerivedOp k) js) s1 = Inr st'"
    by (auto split: sum.splits)
  from deriveOp_shape [OF Cons.prems(2) s1] obtain op where
    d: "deref st (DerivedOp k j) = Some op"
    and sh: "stepShape env opts tr (DerivedOp k j) op st s1"
    by blast
  note eff = stepShape_effect [OF Cons.prems(2) d sh]
  from Cons.IH [OF rest eff(1)] eff(2,3,4) show ?case by simp
qed

lemma fold_routeInput_nth:
  assumes "w < length wvs"
  shows "fold (routeInput env opts batch W) is wvs ! w =
           wvs ! w @ map InputOp
             (filter (\<lambda>i. routed opts (batch ! i) \<and> workerIndex env W (batch ! i) = w) is)"
  using assms
proof (induction "is" arbitrary: wvs)
  case Nil
  then show ?case by simp
next
  case (Cons i "is")
  have "routeInput env opts batch W i wvs ! w =
          wvs ! w @ (if routed opts (batch ! i) \<and> workerIndex env W (batch ! i) = w
                     then [InputOp i] else [])"
    using Cons.prems by (auto simp: routeInput_def appendAt_def nth_list_update)
  with Cons.IH [of "routeInput env opts batch W i wvs"] Cons.prems show ?case by simp
qed

text \<open>The input pointers in the writer vectors after \<open>fillWriterVectors\<close>.\<close>

lemma fill_inputPart:
  assumes f: "fillWriterVectors env opts batch wvs dops = Inr st'"
  shows "inputPart (writerVectors st') =
           fold (routeInput env opts batch (length wvs)) [0..<length batch] (inputPart wvs)"
    and "map unflag (ops st') = map unflag batch"
    and "length (writerVectors st') = length wvs"
    and "(\<exists>i < length batch. routed opts (batch ! i)) \<longrightarrow>
           (of_nat (length wvs) :: 32 word) \<noteq> 0"
proof -
  let ?st0 = "initialFillState env batch wvs dops"
  from f obtain st1 where
    p1: "deriveOpsAndFillWriterVectors env opts None True ?st0 = Inr st1"
    by (auto simp: fillWriterVectors_def split: sum.splits)
  then have "forEachOp (deriveOp env opts True) (map InputOp [0..<length batch])
               (?st0\<lparr>partialTxnOps := Map.empty, collPropertiesCache := Map.empty\<rparr>) = Inr st1"
    by (simp add: deriveOpsAndFillWriterVectors_def srcPtrs_def initialFillState_def)
  from pass_input [OF this, of batch]
  have one: "inputPart (writerVectors st1) =
           fold (routeInput env opts batch (length wvs)) [0..<length batch] (inputPart wvs)"
    "map unflag (ops st1) = map unflag batch" "length (writerVectors st1) = length wvs"
    "(\<exists>i < length batch. routed opts (batch ! i)) \<longrightarrow>
           (of_nat (length wvs) :: 32 word) \<noteq> 0"
    by (auto simp: initialFillState_def cacheValid_empty)
  have two: "inputPart (writerVectors st') = inputPart (writerVectors st1) \<and>
      ops st' = ops st1 \<and> length (writerVectors st') = length (writerVectors st1)"
  proof (cases "flushAll env (sessionUpdateTracker st1) = []")
    case True
    with f p1 show ?thesis by (simp add: fillWriterVectors_def)
  next
    case False
    let ?st2 = "st1\<lparr>derivedOps := derivedOps st1 @ [flushAll env (sessionUpdateTracker st1)]\<rparr>"
    from f p1 False have
      "deriveOpsAndFillWriterVectors env opts (Some (length (derivedOps ?st2) - 1)) False ?st2
         = Inr st'"
      by (simp add: fillWriterVectors_def Let_def)
    then have "forEachOp (deriveOp env opts False)
        (map (DerivedOp (length (derivedOps st1))) [0..<length (flushAll env (sessionUpdateTracker st1))])
        (?st2\<lparr>partialTxnOps := Map.empty, collPropertiesCache := Map.empty\<rparr>) = Inr st'"
      by (simp add: deriveOpsAndFillWriterVectors_def srcPtrs_def)
    from pass_derived [OF this] show ?thesis by (simp add: cacheValid_empty)
  qed
  from one two show "inputPart (writerVectors st') =
           fold (routeInput env opts batch (length wvs)) [0..<length batch] (inputPart wvs)"
    and "map unflag (ops st') = map unflag batch"
    and "length (writerVectors st') = length wvs"
    and "(\<exists>i < length batch. routed opts (batch ! i)) \<longrightarrow>
           (of_nat (length wvs) :: 32 word) \<noteq> 0"
    by simp_all
qed

section \<open>Properties of \<open>fillWriterVectors\<close>\<close>

subsection \<open>The example batch, and the input pointers in the writer vectors\<close>

lemmas fill_defs = fillWriterVectors_def deriveOpsAndFillWriterVectors_def
  initialFillState_def srcPtrs_def deriveOp_def trackSession_def routeOp_def
  clearOnAbort_def bufferPartialTxnOp_def materializeTransaction_def emplaceAndAddDerivedOps_def
  addDerivedOp_def addToWriterVector_def processCrudOp_def getCollectionProperties_def
  getCollectionPropertiesImpl_def defaultCollectionProperties_def nss_db_def isCrudOpType_def
  opTime_le_def partialTxnList_def

lemmas example_defs = exampleEnv_def exampleOptions_def exampleOp_def exampleDb_def

lemma replicate_two: "replicate 2 x = [x, x]"
  by (simp add: numeral_2_eq_2)

lemma example_run:
  "fillWriterVectors exampleEnv exampleOptions exampleBatch (replicate 2 []) [] = Inr exampleResult"
  unfolding replicate_two
  by (simp add: fill_defs example_defs exampleBatch_def exampleResult_def Let_def upt_rec)

lemma precedes_mem: "precedes a b xs \<Longrightarrow> b \<in> set xs"
  by (induction xs) (auto split: if_splits)

lemma precedes_filter: "precedes a b (filter Q xs) \<Longrightarrow> precedes a b xs"
  by (induction xs) (auto split: if_splits dest: precedes_mem)

lemma precedes_append: "b \<in> set ys \<Longrightarrow> precedes a b (xs @ a # ys)"
  by (induction xs) auto

lemma precedes_filter_upt:
  assumes "i < j" and "j < n" and "P i" and "P j"
  shows "precedes (InputOp i) (InputOp j) (map InputOp (filter P [0..<n]))"
proof -
  have "[0..<n] = [0..<i] @ [i..<n]"
    using assms(1,2) upt_add_eq_append [of 0 i "n - i"] by simp
  also have "[i..<n] = i # [Suc i..<n]"
    using assms(1,2) by (simp add: upt_conv_Cons)
  finally have "[0..<n] = [0..<i] @ i # [Suc i..<n]" .
  then have "map InputOp (filter P [0..<n]) =
      map InputOp (filter P [0..<i]) @ InputOp i # map InputOp (filter P [Suc i..<n])"
    using assms(3) by simp
  moreover have "InputOp j \<in> set (map InputOp (filter P [Suc i..<n]))"
    using assms by auto
  ultimately show ?thesis by (simp add: precedes_append)
qed

text \<open>Which input pointers a writer vector holds after \<open>fillWriterVectors\<close>.\<close>

lemma fill_vector_inputs:
  assumes f: "fillWriterVectors env opts batch (replicate W []) [] = Inr st'" and w: "w < W"
  shows "filter isInputOp (writerVectors st' ! w) =
           map InputOp (filter (\<lambda>i. routed opts (batch ! i) \<and> workerIndex env W (batch ! i) = w)
             [0..<length batch])"
proof -
  note fi = fill_inputPart [OF f]
  have "filter isInputOp (writerVectors st' ! w) = inputPart (writerVectors st') ! w"
    using fi(3) w by (simp add: inputPart_def)
  also have "\<dots> = fold (routeInput env opts batch W) [0..<length batch] (replicate W []) ! w"
    using fi(1) by (simp add: inputPart_def)
  also have "\<dots> = map InputOp
      (filter (\<lambda>i. routed opts (batch ! i) \<and> workerIndex env W (batch ! i) = w) [0..<length batch])"
    using w by (simp add: fold_routeInput_nth)
  finally show ?thesis .
qed

lemma fill_present_imp:
  assumes f: "fillWriterVectors env opts batch (replicate W []) [] = Inr st'"
    and p: "present (InputOp i) (writerVectors st')"
  shows "i < length batch \<and> routed opts (batch ! i) \<and> workerIndex env W (batch ! i) < W \<and>
         InputOp i \<in> set (writerVectors st' ! workerIndex env W (batch ! i))"
proof -
  note fi = fill_inputPart [OF f]
  from p obtain v where v: "v \<in> set (writerVectors st')" and iv: "InputOp i \<in> set v"
    by (auto simp: present_def)
  from v obtain w where "w < length (writerVectors st')" and "writerVectors st' ! w = v"
    by (auto simp: in_set_conv_nth)
  with iv fi(3) have w: "w < W" and m: "InputOp i \<in> set (writerVectors st' ! w)"
    by simp_all
  then have "InputOp i \<in> set (filter isInputOp (writerVectors st' ! w))" by simp
  then show ?thesis
    using m w by (auto simp: fill_vector_inputs [OF f w])
qed

lemma fill_present_iff:
  assumes f: "fillWriterVectors env opts batch (replicate W []) [] = Inr st'"
    and i: "i < length batch"
  shows "present (InputOp i) (writerVectors st') \<longleftrightarrow> routed opts (batch ! i)"
proof
  assume "present (InputOp i) (writerVectors st')"
  from fill_present_imp [OF f this] show "routed opts (batch ! i)" by simp
next
  assume r: "routed opts (batch ! i)"
  note fi = fill_inputPart [OF f]
  from fi(4) r i have nz: "(of_nat W :: 32 word) \<noteq> 0" by auto
  let ?w = "workerIndex env W (batch ! i)"
  have w: "?w < W" by (rule workerIndex_less [OF nz])
  have "InputOp i \<in> set (filter isInputOp (writerVectors st' ! ?w))"
    using r i by (simp add: fill_vector_inputs [OF f w])
  then have "InputOp i \<in> set (writerVectors st' ! ?w)" by simp
  moreover have "writerVectors st' ! ?w \<in> set (writerVectors st')"
    using w fi(3) by simp
  ultimately show "present (InputOp i) (writerVectors st')"
    by (auto simp: present_def)
qed

subsection \<open>The input batch, the floor, and entries for one document\<close>

lemma routeHash_same_document:
  assumes "isCrudOpType (getOpType a)" and "isCrudOpType (getOpType b)"
    and "getNss a = getNss b"
    and "getIdElement a = getIdElement b \<or>
         isCapped (getCollectionPropertiesImpl env (getNss a)) \<or> \<not> supportsDocLocking env"
  shows "routeHash env a = routeHash env b"
  using assms by (auto simp: routeHash_def Let_def)

lemma unflag_eq_restore:
  "unflag x = unflag y \<Longrightarrow> x\<lparr>isForCappedCollection := isForCappedCollection y\<rparr> = y"
  by (cases x, cases y) (simp add: unflag_def)

text \<open>
  C10. \<open>fillWriterVectors\<close> leaves the input batch as it was, except for the field
  \<open>isForCappedCollection\<close>: when it returns, the batch has the same length, and every
  entry, with that one field put back, is the entry that was passed in.
\<close>

theorem fillWriterVectors_frame:
  assumes "fillWriterVectors env opts batch wvs dops = Inr st'"
  shows "length (ops st') = length batch \<and>
         (\<forall>i < length batch.
            (ops st' ! i)\<lparr>isForCappedCollection := isForCappedCollection (batch ! i)\<rparr> = batch ! i)"
proof -
  note fi = fill_inputPart [OF assms]
  from fi(2) have len: "length (ops st') = length batch"
    by (metis length_map)
  have "(ops st' ! i)\<lparr>isForCappedCollection := isForCappedCollection (batch ! i)\<rparr> = batch ! i"
    if "i < length batch" for i
  proof -
    have "unflag (ops st' ! i) = unflag (batch ! i)"
      using fi(2) that len by (metis nth_map)
    then show ?thesis by (rule unflag_eq_restore)
  qed
  with len show ?thesis by simp
qed

theorem fillWriterVectors_frame_witness:
  "fillWriterVectors exampleEnv exampleOptions exampleBatch (replicate 2 []) [] = Inr exampleResult \<and>
   length (ops exampleResult) = length exampleBatch \<and>
   isForCappedCollection (ops exampleResult ! 3) \<and>
   \<not> isForCappedCollection (exampleBatch ! 3) \<and>
   (ops exampleResult ! 3)\<lparr>isForCappedCollection := False\<rparr> = exampleBatch ! 3"
proof -
  note t = fillWriterVectors_frame [OF example_run]
  have l: "3 < length exampleBatch" by (simp add: exampleBatch_def)
  from t l have "(ops exampleResult ! 3)\<lparr>isForCappedCollection :=
      isForCappedCollection (exampleBatch ! 3)\<rparr> = exampleBatch ! 3"
    by blast
  moreover have "\<not> isForCappedCollection (exampleBatch ! 3)"
    "isForCappedCollection (ops exampleResult ! 3)"
    by (simp_all add: exampleBatch_def exampleResult_def exampleOp_def)
  ultimately show ?thesis using t example_run by simp
qed

text \<open>
  C5. An entry whose opTime is at or below \<open>beginApplyingOpTime\<close> leaves the state of the
  pass as it is (no writer vector, no session tracker, no transaction buffer changes); an
  entry above the floor goes to the session tracker and then to the routing; and after
  \<open>fillWriterVectors\<close> the pointer to an entry of the batch is in a writer vector exactly
  when the entry is above the floor and is not taken by the transaction handling.
\<close>

theorem floor_filter:
  "(deref st p = Some op \<and> opTime_le (getOpTime op) (beginApplyingOpTime opts) \<longrightarrow>
      deriveOp env opts tr p st = Inr st) \<and>
   (deref st p = Some op \<and> \<not> opTime_le (getOpTime op) (beginApplyingOpTime opts) \<longrightarrow>
      deriveOp env opts tr p st =
        (case trackSession env tr op st of
           Inl e \<Rightarrow> Inl e
         | Inr st1 \<Rightarrow> routeOp env opts p op st1)) \<and>
   (fillWriterVectors env opts batch (replicate W []) [] = Inr st' \<and> i < length batch \<longrightarrow>
      (present (InputOp i) (writerVectors st') \<longleftrightarrow>
         \<not> opTime_le (getOpTime (batch ! i)) (beginApplyingOpTime opts) \<and>
         \<not> absorbed opts (batch ! i)))"
proof (intro conjI impI)
  assume "deref st p = Some op \<and> opTime_le (getOpTime op) (beginApplyingOpTime opts)"
  then show "deriveOp env opts tr p st = Inr st" by (simp add: deriveOp_def)
next
  assume "deref st p = Some op \<and> \<not> opTime_le (getOpTime op) (beginApplyingOpTime opts)"
  then show "deriveOp env opts tr p st =
        (case trackSession env tr op st of
           Inl e \<Rightarrow> Inl e
         | Inr st1 \<Rightarrow> routeOp env opts p op st1)"
    by (simp add: deriveOp_def)
next
  assume "fillWriterVectors env opts batch (replicate W []) [] = Inr st' \<and> i < length batch"
  then show "present (InputOp i) (writerVectors st') \<longleftrightarrow>
         \<not> opTime_le (getOpTime (batch ! i)) (beginApplyingOpTime opts) \<and>
         \<not> absorbed opts (batch ! i)"
    using fill_present_iff [of env opts batch W st' i] by (simp add: routed_def)
qed

theorem floor_filter_witness:
  "deref exampleInit (InputOp 0) = Some (exampleBatch ! 0) \<and>
   opTime_le (getOpTime (exampleBatch ! 0)) (beginApplyingOpTime exampleOptions) \<and>
   deriveOp exampleEnv exampleOptions True (InputOp 0) exampleInit = Inr exampleInit \<and>
   deref exampleInit (InputOp 1) = Some (exampleBatch ! 1) \<and>
   \<not> opTime_le (getOpTime (exampleBatch ! 1)) (beginApplyingOpTime exampleOptions) \<and>
   fillWriterVectors exampleEnv exampleOptions exampleBatch (replicate 2 []) [] = Inr exampleResult \<and>
   \<not> present (InputOp 0) (writerVectors exampleResult) \<and>
   present (InputOp 1) (writerVectors exampleResult)"
proof -
  have d0: "deref exampleInit (InputOp 0) = Some (exampleBatch ! 0)"
    by (simp add: exampleInit_def initialFillState_def exampleBatch_def)
  have f0: "opTime_le (getOpTime (exampleBatch ! 0)) (beginApplyingOpTime exampleOptions)"
    by (simp add: exampleBatch_def exampleOp_def exampleOptions_def opTime_le_def)
  have d1: "deref exampleInit (InputOp 1) = Some (exampleBatch ! 1)"
    by (simp add: exampleInit_def initialFillState_def exampleBatch_def)
  have f1: "\<not> opTime_le (getOpTime (exampleBatch ! 1)) (beginApplyingOpTime exampleOptions)"
    by (simp add: exampleBatch_def exampleOp_def exampleOptions_def opTime_le_def)
  have a1: "\<not> absorbed exampleOptions (exampleBatch ! 1)"
    by (simp add: exampleBatch_def exampleOp_def exampleOptions_def absorbed_def)
  have l: "(0::nat) < length exampleBatch" "(1::nat) < length exampleBatch"
    by (simp_all add: exampleBatch_def)
  note t0 = floor_filter [where st = exampleInit and p = "InputOp 0" and op = "exampleBatch ! 0"
      and opts = exampleOptions and env = exampleEnv and tr = True and batch = exampleBatch
      and W = 2 and st' = exampleResult and i = 0]
  note t1 = floor_filter [where st = exampleInit and p = "InputOp 1" and op = "exampleBatch ! 1"
      and opts = exampleOptions and env = exampleEnv and tr = True and batch = exampleBatch
      and W = 2 and st' = exampleResult and i = 1]
  from t0 d0 f0 example_run l have
    "deriveOp exampleEnv exampleOptions True (InputOp 0) exampleInit = Inr exampleInit"
    "\<not> present (InputOp 0) (writerVectors exampleResult)"
    by simp_all
  moreover from t1 f1 a1 example_run l have "present (InputOp 1) (writerVectors exampleResult)"
    by simp
  ultimately show ?thesis using d0 f0 d1 f1 example_run by simp
qed

text \<open>
  C1 (amended). Two CRUD entries of one batch for the same document (the same namespace
  and the same \<open>_id\<close>; or only the same namespace when the collection is capped or the
  engine has no document locking): when both are in the writer vectors, they are in the
  same vector and keep their batch order. An entry is in the writer vectors exactly when
  its opTime is above the floor and the transaction handling does not take it, so the
  earlier entry can be absent while the later one is present.
\<close>

theorem same_document_serialization:
  assumes "fillWriterVectors env opts batch (replicate W []) [] = Inr st'"
    and "i < j" and "j < length batch"
    and "isCrudOpType (getOpType (batch ! i))" and "isCrudOpType (getOpType (batch ! j))"
    and "getNss (batch ! i) = getNss (batch ! j)"
    and "getIdElement (batch ! i) = getIdElement (batch ! j) \<or>
         isCapped (getCollectionPropertiesImpl env (getNss (batch ! i))) \<or>
         \<not> supportsDocLocking env"
  shows "((\<exists>w < W. precedes (InputOp i) (InputOp j) (writerVectors st' ! w)) \<or>
          \<not> present (InputOp i) (writerVectors st') \<or>
          \<not> present (InputOp j) (writerVectors st')) \<and>
         (present (InputOp i) (writerVectors st') \<longleftrightarrow> routed opts (batch ! i)) \<and>
         (present (InputOp j) (writerVectors st') \<longleftrightarrow> routed opts (batch ! j))"
proof -
  note f = assms(1)
  have i: "i < length batch" using assms(2,3) by simp
  note pi = fill_present_iff [OF f i]
  note pj = fill_present_iff [OF f assms(3)]
  have "\<exists>w < W. precedes (InputOp i) (InputOp j) (writerVectors st' ! w)"
    if a: "present (InputOp i) (writerVectors st')" and b: "present (InputOp j) (writerVectors st')"
  proof -
    let ?w = "workerIndex env W (batch ! i)"
    from fill_present_imp [OF f a] have ri: "routed opts (batch ! i)" and w: "?w < W"
      by simp_all
    from fill_present_imp [OF f b] have rj: "routed opts (batch ! j)" by simp
    have "routeHash env (batch ! i) = routeHash env (batch ! j)"
      by (rule routeHash_same_document [OF assms(4,5,6,7)])
    then have same: "workerIndex env W (batch ! j) = ?w"
      by (simp add: workerIndex_def)
    have "precedes (InputOp i) (InputOp j) (filter isInputOp (writerVectors st' ! ?w))"
      unfolding fill_vector_inputs [OF f w]
      by (rule precedes_filter_upt [OF assms(2,3)]) (simp_all add: ri rj same)
    then have "precedes (InputOp i) (InputOp j) (writerVectors st' ! ?w)"
      by (rule precedes_filter)
    with w show ?thesis by blast
  qed
  with pi pj show ?thesis by blast
qed

theorem same_document_serialization_witness:
  "fillWriterVectors exampleEnv exampleOptions exampleBatch (replicate 2 []) [] = Inr exampleResult \<and>
   isCrudOpType (getOpType (exampleBatch ! 1)) \<and> isCrudOpType (getOpType (exampleBatch ! 2)) \<and>
   getNss (exampleBatch ! 1) = getNss (exampleBatch ! 2) \<and>
   getIdElement (exampleBatch ! 1) = getIdElement (exampleBatch ! 2) \<and>
   present (InputOp 1) (writerVectors exampleResult) \<and>
   present (InputOp 2) (writerVectors exampleResult) \<and>
   precedes (InputOp 1) (InputOp 2) (writerVectors exampleResult ! 1)"
proof -
  have h: "(1::nat) < 2" "2 < length exampleBatch"
    "isCrudOpType (getOpType (exampleBatch ! 1))" "isCrudOpType (getOpType (exampleBatch ! 2))"
    "getNss (exampleBatch ! 1) = getNss (exampleBatch ! 2)"
    "getIdElement (exampleBatch ! 1) = getIdElement (exampleBatch ! 2)"
    by (simp_all add: exampleBatch_def exampleOp_def isCrudOpType_def)
  have r: "routed exampleOptions (exampleBatch ! 1)" "routed exampleOptions (exampleBatch ! 2)"
    by (simp_all add: exampleBatch_def exampleOp_def exampleOptions_def routed_def absorbed_def
        opTime_le_def)
  from same_document_serialization [OF example_run h(1,2,3,4,5)] h(6) r
  have "present (InputOp 1) (writerVectors exampleResult)"
    "present (InputOp 2) (writerVectors exampleResult)"
    by simp_all
  moreover have "precedes (InputOp 1) (InputOp 2) (writerVectors exampleResult ! 1)"
    by (simp add: exampleResult_def)
  ultimately show ?thesis using example_run h by simp
qed

text \<open>
  The claim as the specification states it (``both in the same vector with a before b, or
  b is absent'') fails on a batch whose first entry is at the floor and whose second entry,
  for the same document, is above it: the first is absent and the second is routed.
\<close>

theorem same_document_serialization_counterexample:
  "fillWriterVectors exampleEnv exampleOptions exampleBatch (replicate 2 []) [] = Inr exampleResult \<and>
   isCrudOpType (getOpType (exampleBatch ! 0)) \<and> isCrudOpType (getOpType (exampleBatch ! 1)) \<and>
   getNss (exampleBatch ! 0) = getNss (exampleBatch ! 1) \<and>
   getIdElement (exampleBatch ! 0) = getIdElement (exampleBatch ! 1) \<and>
   \<not> (precedes (InputOp 0) (InputOp 1) (writerVectors exampleResult ! 0) \<or>
      precedes (InputOp 0) (InputOp 1) (writerVectors exampleResult ! 1) \<or>
      \<not> present (InputOp 1) (writerVectors exampleResult))"
  using example_run
  by (simp add: exampleBatch_def exampleOp_def isCrudOpType_def exampleResult_def present_def)

subsection \<open>Inserts into capped collections\<close>

lemma routedWell_iff:
  "routedWell env st \<longleftrightarrow>
     (\<forall>w < length (writerVectors st). \<forall>p \<in> set (writerVectors st ! w).
        \<exists>op. deref st p = Some op \<and> markCapped env op = op \<and>
             workerIndex env (length (writerVectors st)) op = w)"
  unfolding routedWell_def
  by (intro all_cong ball_cong refl) (simp split: option.splits)

lemma routedWellI:
  assumes "\<And>w p. w < length (writerVectors st) \<Longrightarrow> p \<in> set (writerVectors st ! w) \<Longrightarrow>
     \<exists>op. deref st p = Some op \<and> markCapped env op = op \<and>
          workerIndex env (length (writerVectors st)) op = w"
  shows "routedWell env st"
  unfolding routedWell_iff using assms by blast

lemma routedWellD:
  assumes "routedWell env st" and "w < length (writerVectors st)"
    and "p \<in> set (writerVectors st ! w)"
  shows "\<exists>op. deref st p = Some op \<and> markCapped env op = op \<and>
          workerIndex env (length (writerVectors st)) op = w"
  using assms unfolding routedWell_iff by blast

lemma set_appendAt_nth:
  "w < length xs \<Longrightarrow> set (appendAt u q xs ! w) = set (xs ! w) \<union> (if u = w then {q} else {})"
  by (auto simp: appendAt_def nth_list_update)

lemma nested_update_nth:
  assumes "k' < length ds" and "k' \<noteq> k \<or> j' \<noteq> j"
  shows "ds[k := (ds ! k)[j := x]] ! k' ! j' = ds ! k' ! j'"
proof (cases "k' = k")
  case True
  with assms show ?thesis by simp
next
  case False
  then show ?thesis by simp
qed

lemma nested_update_length:
  assumes "k' < length ds"
  shows "length (ds[k := (ds ! k)[j := x]] ! k') = length (ds ! k')"
  using assms by (cases "k' = k") simp_all

lemma set_routeDerived:
  assumes "w < length wvs"
  shows "set (routeDerived env k v n wvs ! w) =
           set (wvs ! w) \<union>
           {DerivedOp k j | j. j < n \<and> workerIndex env (length wvs) (v ! j) = w}"
proof (induction n)
  case 0
  then show ?case by (simp add: routeDerived_def)
next
  case (Suc n)
  have "set (appendAt u q xs ! w) = set (xs ! w) \<union> (if u = w then {q} else {})"
    if "w < length xs" for u q and xs :: "OpPtr list list"
    using that by (auto simp: appendAt_def nth_list_update)
  from this [of "routeDerived env k v n wvs"] assms Suc show ?case
    by (auto simp: routeDerived_Suc less_Suc_eq)
qed

lemma deref_emplaced_new:
  "j < length v \<Longrightarrow>
   deref (emplaced env v st) (DerivedOp (length (derivedOps st)) j) = Some (markCapped env (v ! j))"
  by simp

lemma workerIndex_markCapped: "workerIndex env W (markCapped env op) = workerIndex env W op"
  by (simp add: workerIndex_def routeHash_markCapped)

lemma routedWell_emplaced:
  assumes "routedWell env st"
  shows "routedWell env (emplaced env v st)"
proof (rule routedWellI)
  fix w p
  assume w: "w < length (writerVectors (emplaced env v st))"
    and p: "p \<in> set (writerVectors (emplaced env v st) ! w)"
  from w have w': "w < length (writerVectors st)" by simp
  from p have "p \<in> set (writerVectors st ! w) \<or>
      (\<exists>j < length v. p = DerivedOp (length (derivedOps st)) j \<and>
         workerIndex env (length (writerVectors st)) (v ! j) = w)"
    by (auto simp: set_routeDerived [OF w'])
  then show "\<exists>op. deref (emplaced env v st) p = Some op \<and> markCapped env op = op \<and>
          workerIndex env (length (writerVectors (emplaced env v st))) op = w"
  proof
    assume "p \<in> set (writerVectors st ! w)"
    from routedWellD [OF assms w' this] show ?thesis
      by (auto simp: deref_emplaced)
  next
    assume "\<exists>j < length v. p = DerivedOp (length (derivedOps st)) j \<and>
         workerIndex env (length (writerVectors st)) (v ! j) = w"
    then show ?thesis
      by (auto simp: markCapped_idem workerIndex_markCapped)
  qed
qed

lemma routedWell_tracker_update [simp]:
  "routedWell env (st\<lparr>sessionUpdateTracker := t\<rparr>) = routedWell env st"
  by (simp add: routedWell_iff)

lemma routedWell_partial_update [simp]:
  "routedWell env (st\<lparr>partialTxnOps := pm\<rparr>) = routedWell env st"
  by (simp add: routedWell_iff)

lemma routedWell_cache_update [simp]:
  "routedWell env (st\<lparr>collPropertiesCache := c\<rparr>) = routedWell env st"
  by (simp add: routedWell_iff)

lemma routedWell_tracked:
  "routedWell env st \<Longrightarrow> routedWell env (tracked env tr op st)"
  by (auto simp: tracked_def routedWell_emplaced split: prod.splits option.splits)

lemma deref_setOp_other: "q \<noteq> p \<Longrightarrow> deref (setOp p x st) q = deref st q"
  by (cases p; cases q) (auto simp: nested_update_nth nested_update_length)

lemma writerVectors_setOp [simp]: "writerVectors (setOp p x st) = writerVectors st"
  by (cases p) auto

lemma routedWell_afterCrud:
  assumes d: "deref st p = Some op" and r: "routedWell env st"
  shows "routedWell env (afterCrud env p op st)"
proof (rule routedWellI)
  fix w q
  assume w: "w < length (writerVectors (afterCrud env p op st))"
    and q: "q \<in> set (writerVectors (afterCrud env p op st) ! w)"
  from w q have w': "w < length (writerVectors st)" and q': "q \<in> set (writerVectors st ! w)"
    by simp_all
  from routedWellD [OF r w' q'] obtain oq where
    oq: "deref st q = Some oq" "markCapped env oq = oq"
      "workerIndex env (length (writerVectors st)) oq = w"
    by blast
  show "\<exists>op'. deref (afterCrud env p op st) q = Some op' \<and> markCapped env op' = op' \<and>
          workerIndex env (length (writerVectors (afterCrud env p op st))) op' = w"
  proof (cases "q = p")
    case True
    with oq d have "oq = op" by simp
    with oq True deref_afterCrud_same [OF d, of env] show ?thesis by simp
  next
    case False
    then have "deref (afterCrud env p op st) q = deref st q"
      by (simp add: afterCrud_def deref_setOp_other)
    with oq show ?thesis by simp
  qed
qed

lemma routedWell_append:
  assumes r: "routedWell env A" and d: "deref A p = Some op'"
    and m: "markCapped env op' = op'"
    and w: "workerIndex env (length (writerVectors A)) op' = u"
  shows "routedWell env (A\<lparr>writerVectors := appendAt u p (writerVectors A)\<rparr>)"
proof (rule routedWellI)
  fix w q
  assume "w < length (writerVectors (A\<lparr>writerVectors := appendAt u p (writerVectors A)\<rparr>))"
    and "q \<in> set (writerVectors (A\<lparr>writerVectors := appendAt u p (writerVectors A)\<rparr>) ! w)"
  then have w': "w < length (writerVectors A)"
    and "q \<in> set (appendAt u p (writerVectors A) ! w)"
    by simp_all
  then have w': "w < length (writerVectors A)"
    and "q \<in> set (writerVectors A ! w) \<or> (q = p \<and> u = w)"
    by (auto simp: set_appendAt_nth split: if_splits)
  then show "\<exists>op. deref (A\<lparr>writerVectors := appendAt u p (writerVectors A)\<rparr>) q = Some op \<and>
      markCapped env op = op \<and>
      workerIndex env (length (writerVectors (A\<lparr>writerVectors := appendAt u p (writerVectors A)\<rparr>)))
        op = w"
    using routedWellD [OF r w'] d m w by auto
qed

lemma stepShape_routedWell:
  assumes d: "deref st p = Some op" and r: "routedWell env st"
    and s: "stepShape env opts tr p op st st'"
  shows "routedWell env st'"
proof -
  let ?T = "tracked env tr op st"
  let ?A = "afterCrud env p op ?T"
  have rT: "routedWell env ?T" by (rule routedWell_tracked [OF r])
  have dT: "deref ?T p = Some op" by (rule deref_tracked [OF d])
  have rA: "routedWell env ?A" by (rule routedWell_afterCrud [OF dT rT])
  have dA: "deref ?A p = Some (markCapped env op)" by (rule deref_afterCrud_same [OF dT])
  have ap: "routedWell env
      (?A\<lparr>writerVectors := appendAt (workerIndex env (length (writerVectors st)) op) p
                               (writerVectors ?A)\<rparr>)"
    by (rule routedWell_append [OF rA dA]) (simp_all add: markCapped_idem workerIndex_markCapped)
  from s consider "st' = st" | pm where "st' = ?T\<lparr>partialTxnOps := pm\<rparr>"
    | v pm where "st' = (emplaced env v ?A)\<lparr>partialTxnOps := pm\<rparr>"
    | pm where "st' = ?A\<lparr>writerVectors :=
                     appendAt (workerIndex env (length (writerVectors st)) op) p
                       (writerVectors ?T), partialTxnOps := pm\<rparr>"
    by (auto simp: stepShape_def)
  then show ?thesis
  proof cases
    case 1
    with r show ?thesis by simp
  next
    case 2
    with rT show ?thesis by simp
  next
    case 3
    with routedWell_emplaced [OF rA] show ?thesis by simp
  next
    case 4
    have "st' = (?A\<lparr>writerVectors := appendAt (workerIndex env (length (writerVectors st)) op) p
                               (writerVectors ?A)\<rparr>)\<lparr>partialTxnOps := pm\<rparr>"
      by (simp add: 4)
    with ap show ?thesis by (simp only: routedWell_partial_update)
  qed
qed

lemma forEachOp_routedWell:
  assumes "forEachOp (deriveOp env opts tr) ps st = Inr st'"
    and "cacheValid env (collPropertiesCache st)" and "routedWell env st"
  shows "routedWell env st'"
  using assms
proof (induction ps arbitrary: st)
  case Nil
  then show ?case by simp
next
  case (Cons p ps)
  from Cons.prems(1) obtain s1 where
    s1: "deriveOp env opts tr p st = Inr s1"
    and rest: "forEachOp (deriveOp env opts tr) ps s1 = Inr st'"
    by (auto split: sum.splits)
  from deriveOp_shape [OF Cons.prems(2) s1] obtain op where
    d: "deref st p = Some op" and sh: "stepShape env opts tr p op st s1"
    by blast
  note eff = stepShape_effect [OF Cons.prems(2) d sh]
  from Cons.IH [OF rest eff(1) stepShape_routedWell [OF d Cons.prems(3) sh]] show ?case .
qed

lemma deref_derivedOps_append:
  "deref st p = Some op \<Longrightarrow> deref (st\<lparr>derivedOps := derivedOps st @ [v]\<rparr>) p = Some op"
  by (cases p) (auto simp: nth_append split: if_splits)

lemma routedWell_derivedOps_append:
  assumes "routedWell env st"
  shows "routedWell env (st\<lparr>derivedOps := derivedOps st @ [v]\<rparr>)"
proof (rule routedWellI)
  fix w p
  assume "w < length (writerVectors (st\<lparr>derivedOps := derivedOps st @ [v]\<rparr>))"
    and "p \<in> set (writerVectors (st\<lparr>derivedOps := derivedOps st @ [v]\<rparr>) ! w)"
  then have "w < length (writerVectors st)" and "p \<in> set (writerVectors st ! w)" by simp_all
  from routedWellD [OF assms this]
  show "\<exists>op. deref (st\<lparr>derivedOps := derivedOps st @ [v]\<rparr>) p = Some op \<and>
      markCapped env op = op \<and>
      workerIndex env (length (writerVectors (st\<lparr>derivedOps := derivedOps st @ [v]\<rparr>))) op = w"
    by (auto simp: deref_derivedOps_append)
qed

lemma fill_routedWell:
  assumes f: "fillWriterVectors env opts batch (replicate W []) dops = Inr st'"
  shows "routedWell env st'"
proof -
  let ?st0 = "initialFillState env batch (replicate W []) dops"
  from f obtain st1 where
    p1: "deriveOpsAndFillWriterVectors env opts None True ?st0 = Inr st1"
    by (auto simp: fillWriterVectors_def split: sum.splits)
  have r0: "routedWell env ?st0"
    unfolding routedWell_iff by (simp add: initialFillState_def)
  from p1 have r1: "routedWell env st1"
    unfolding deriveOpsAndFillWriterVectors_def
    by (rule forEachOp_routedWell) (simp_all add: cacheValid_empty r0)
  show ?thesis
  proof (cases "flushAll env (sessionUpdateTracker st1) = []")
    case True
    with f p1 r1 show ?thesis by (simp add: fillWriterVectors_def)
  next
    case False
    let ?st2 = "st1\<lparr>derivedOps := derivedOps st1 @ [flushAll env (sessionUpdateTracker st1)]\<rparr>"
    from f p1 False have
      "deriveOpsAndFillWriterVectors env opts (Some (length (derivedOps ?st2) - 1)) False ?st2
         = Inr st'"
      by (simp add: fillWriterVectors_def Let_def)
    then show ?thesis
      unfolding deriveOpsAndFillWriterVectors_def
      by (rule forEachOp_routedWell)
        (simp_all add: cacheValid_empty routedWell_derivedOps_append [OF r1])
  qed
qed

text \<open>
  C8. Every pointer that \<open>fillWriterVectors\<close> leaves in a writer vector points to an
  entry; when that entry is an insert into a capped collection, its
  \<open>isForCappedCollection\<close> flag is set; and when it is a CRUD entry for a capped
  collection, the index of its vector is the hash of the namespace alone, modulo the
  number of writers.
\<close>

theorem capped_insert_marking:
  assumes "fillWriterVectors env opts batch (replicate W []) [] = Inr st'"
    and "w < W" and "p \<in> set (writerVectors st' ! w)"
  shows "\<exists>op. deref st' p = Some op \<and>
           (getOpType op = kInsert \<and> isCapped (getCollectionPropertiesImpl env (getNss op))
              \<longrightarrow> isForCappedCollection op) \<and>
           (isCrudOpType (getOpType op) \<and> isCapped (getCollectionPropertiesImpl env (getNss op))
              \<longrightarrow> w = unat ((ucast (stringMapHash env (getNss op)) :: 32 word) mod of_nat W))"
proof -
  note fi = fill_inputPart [OF assms(1)]
  have r: "routedWell env st'" by (rule fill_routedWell [OF assms(1)])
  have w: "w < length (writerVectors st')" using fi(3) assms(2) by simp
  from routedWellD [OF r w assms(3)] obtain op where
    op: "deref st' p = Some op" "markCapped env op = op"
      "workerIndex env (length (writerVectors st')) op = w"
    by blast
  have "isForCappedCollection op"
    if "getOpType op = kInsert \<and> isCapped (getCollectionPropertiesImpl env (getNss op))"
  proof -
    from that op(2) have "op\<lparr>isForCappedCollection := True\<rparr> = op"
      by (simp add: markCapped_def)
    then have "isForCappedCollection (op\<lparr>isForCappedCollection := True\<rparr>) = isForCappedCollection op"
      by simp
    then show ?thesis by simp
  qed
  moreover have "w = unat ((ucast (stringMapHash env (getNss op)) :: 32 word) mod of_nat W)"
    if "isCrudOpType (getOpType op) \<and> isCapped (getCollectionPropertiesImpl env (getNss op))"
    using that op(3) fi(3) by (simp add: workerIndex_def routeHash_def Let_def)
  ultimately show ?thesis using op(1) by blast
qed

theorem capped_insert_marking_witness:
  "fillWriterVectors exampleEnv exampleOptions exampleBatch (replicate 2 []) [] = Inr exampleResult \<and>
   (0::nat) < 2 \<and> InputOp 3 \<in> set (writerVectors exampleResult ! 0) \<and>
   deref exampleResult (InputOp 3) = Some (ops exampleResult ! 3) \<and>
   getOpType (ops exampleResult ! 3) = kInsert \<and>
   isCapped (getCollectionPropertiesImpl exampleEnv (getNss (ops exampleResult ! 3))) \<and>
   isForCappedCollection (ops exampleResult ! 3) \<and>
   (0::nat) = unat ((ucast (stringMapHash exampleEnv (getNss (ops exampleResult ! 3))) :: 32 word)
                 mod of_nat 2)"
proof -
  have m: "InputOp 3 \<in> set (writerVectors exampleResult ! 0)"
    by (simp add: exampleResult_def)
  have d: "deref exampleResult (InputOp 3) = Some (ops exampleResult ! 3)"
    by (simp add: exampleResult_def)
  have c: "getOpType (ops exampleResult ! 3) = kInsert"
    "isCrudOpType (getOpType (ops exampleResult ! 3))"
    "isCapped (getCollectionPropertiesImpl exampleEnv (getNss (ops exampleResult ! 3)))"
    by (simp_all add: exampleResult_def exampleOp_def isCrudOpType_def
        getCollectionPropertiesImpl_def exampleEnv_def exampleDb_def nss_db_def)
  from capped_insert_marking [OF example_run _ m] d c
  have "isForCappedCollection (ops exampleResult ! 3) \<and>
     (0::nat) = unat ((ucast (stringMapHash exampleEnv (getNss (ops exampleResult ! 3))) :: 32 word)
                 mod of_nat 2)"
    by simp
  with example_run m d c show ?thesis by simp
qed

subsection \<open>Transactions: the last entry, and the abort\<close>

lemma routeDerived_nth:
  assumes "w < length wvs"
  shows "routeDerived env k v n wvs ! w =
           wvs ! w @ map (DerivedOp k)
             (filter (\<lambda>j. workerIndex env (length wvs) (v ! j) = w) [0..<n])"
proof (induction n)
  case 0
  then show ?case by (simp add: routeDerived_def)
next
  case (Suc n)
  have "appendAt u q xs ! w = xs ! w @ (if u = w then [q] else [])"
    if "w < length xs" for u q and xs :: "OpPtr list list"
    using that by (auto simp: appendAt_def nth_list_update)
  from this [of "routeDerived env k v n wvs"] assms Suc show ?case
    by (simp add: routeDerived_Suc)
qed

lemma partialTxnList_tracked [simp]:
  "partialTxnList (tracked env tr op st) sid = partialTxnList st sid"
  by (simp add: partialTxnList_def)

lemma deref_valid_not_new:
  "deref st p = Some op \<Longrightarrow> p \<noteq> DerivedOp (length (derivedOps st)) j"
  by (cases p) (auto split: if_splits)

lemma afterCrud_noncrud:
  "\<not> isCrudOpType (getOpType op) \<Longrightarrow> afterCrud env p op st = st"
  by (simp add: afterCrud_def)

lemma cleared_nonabort:
  "getCommandType op \<noteq> kAbortTransaction \<Longrightarrow> cleared op st = st"
  by (simp add: cleared_def)

lemma deriveOp_above_floor:
  assumes cv: "cacheValid env (collPropertiesCache st)" and d: "deref st p = Some op"
    and above: "\<not> opTime_le (getOpTime op) (beginApplyingOpTime opts)"
    and r: "deriveOp env opts tr p st = Inr st'"
  shows "trackSession env tr op st = Inr (tracked env tr op st) \<and>
         routeOp env opts p op (tracked env tr op st) = Inr st'"
proof -
  from r d above obtain st1 where t: "trackSession env tr op st = Inr st1"
    and ro: "routeOp env opts p op st1 = Inr st'"
    by (auto simp: deriveOp_def split: sum.splits)
  from trackSession_Inr [OF cv t] t ro show ?thesis by simp
qed

text \<open>
  The turn of the loop for the last entry of a transaction (a terminal \<open>applyOps\<close> with
  session id and transaction number, or a prepared commit in initial sync), above the
  floor, in a state whose property cache agrees with the catalog: the entries behind the
  pointers saved for the session are handed, with the entry, to
  \<open>readTransactionOperationsFromOplogChain\<close>; the list it returns becomes the new last
  vector of \<open>derivedOps\<close>; each writer vector gets the pointers to the flattened entries
  that hash to it; the saved list of the session is empty afterwards.
\<close>

lemma deriveOp_terminal_entry:
  assumes "cacheValid env (collPropertiesCache st)"
    and "deref st p = Some op"
    and "\<not> opTime_le (getOpTime op) (beginApplyingOpTime opts)"
    and "\<not> isPartialTransaction op" and "\<not> (shouldPrepare op \<and> mode opts = kInitialSync)"
    and "getOpType op = kCommand" and "getCommandType op \<noteq> kAbortTransaction"
    and "(isTerminalApplyOps op \<and> getTxnNumber op \<noteq> None) \<or>
         (\<not> isTerminalApplyOps op \<and> isPreparedCommit op \<and> mode opts = kInitialSync)"
    and "getSessionId op = Some sid"
    and "deriveOp env opts tr p st = Inr st'"
  shows "\<exists>T partialOps.
           trackSession env tr op st = Inr T \<and>
           those (map (deref T) (partialTxnList st sid)) = Some partialOps \<and>
           derivedOps st' =
             derivedOps T @
               [map (markCapped env) (readTransactionOperationsFromOplogChain env op partialOps)] \<and>
           length (writerVectors st') = length (writerVectors T) \<and>
           (\<forall>w < length (writerVectors T).
              writerVectors st' ! w =
                writerVectors T ! w @
                  map (DerivedOp (length (derivedOps T)))
                    (filter (\<lambda>j. workerIndex env (length (writerVectors T))
                                   (readTransactionOperationsFromOplogChain env op partialOps ! j) = w)
                       [0..<length (readTransactionOperationsFromOplogChain env op partialOps)])) \<and>
           (\<forall>j. p \<noteq> DerivedOp (length (derivedOps T)) j) \<and>
           partialTxnOps st' sid = Some [] \<and>
           (\<forall>s. s \<noteq> sid \<longrightarrow> partialTxnOps st' s = partialTxnOps st s) \<and>
           ops st' = ops st"
proof -
  let ?T = "tracked env tr op st"
  note af = deriveOp_above_floor [OF assms(1,2,3,10)]
  have cvT: "cacheValid env (collPropertiesCache ?T)" by (rule cacheValid_tracked [OF assms(1)])
  have dT: "deref ?T p = Some op" by (rule deref_tracked [OF assms(2)])
  have nb: "\<not> (isPartialTransaction op \<or> (shouldPrepare op \<and> mode opts = kInitialSync))"
    using assms(4,5) by simp
  have nc: "\<not> isCrudOpType (getOpType op)" using assms(6) by (simp add: isCrudOpType_def)
  note u = routeOp_unbuffered [OF cvT dT nb conjunct2 [OF af], unfolded Let_def]
  have "materializeTransaction env op sid ?T = Inr st'"
    using u assms(7,8,9) nc
    by (auto simp: afterCrud_noncrud cleared_nonabort markCapped_noncrud split: if_splits)
  from materializeTransaction_Inr [OF cvT this] obtain partialOps where
    t: "those (map (deref ?T) (partialTxnList st sid)) = Some partialOps"
    and st': "st' = emplaced env (readTransactionOperationsFromOplogChain env op partialOps)
                   (?T\<lparr>partialTxnOps := (partialTxnOps ?T)(sid \<mapsto> [])\<rparr>)"
    by auto
  have "\<forall>j. p \<noteq> DerivedOp (length (derivedOps ?T)) j"
    using deref_valid_not_new [OF dT] by blast
  with af t show ?thesis
    unfolding st' by (intro exI [of _ ?T] exI [of _ partialOps]) (simp add: routeDerived_nth)
qed

lemma partialTxnList_update [simp]:
  "partialTxnList (st\<lparr>partialTxnOps := (partialTxnOps st)(s \<mapsto> l)\<rparr>) sid =
     (if sid = s then l else partialTxnList st sid)"
  by (simp add: partialTxnList_def)

lemma partialTxnList_cleared:
  "partialTxnList (cleared op st) sid =
     (if getCommandType op = kAbortTransaction \<and> getSessionId op = Some sid then []
      else partialTxnList st sid)"
  by (auto simp: cleared_def partialTxnList_def split: option.splits)

lemma partialTxnList_afterCrud [simp]:
  "partialTxnList (afterCrud env p op st) sid = partialTxnList st sid"
  by (simp add: partialTxnList_def)

lemma partialTxnList_emplaced [simp]:
  "partialTxnList (emplaced env v st) sid = partialTxnList st sid"
  by (simp add: partialTxnList_def)

lemma partialTxnList_wv_update [simp]:
  "partialTxnList (st\<lparr>writerVectors := x\<rparr>) sid = partialTxnList st sid"
  by (simp add: partialTxnList_def)

text \<open>What one turn of the loop does to the list saved for a session, and when it leaves
  the batch as it is.\<close>

lemma deriveOp_partial:
  assumes cv: "cacheValid env (collPropertiesCache st)" and d: "deref st p = Some op"
    and r: "deriveOp env opts tr p st = Inr st'"
  shows "partialTxnList st' sid =
           (if opTime_le (getOpTime op) (beginApplyingOpTime opts) then partialTxnList st sid
            else if buffered opts op
            then (if getSessionId op = Some sid then partialTxnList st sid @ [p]
                  else partialTxnList st sid)
            else if clearsBuffer opts op sid then [] else partialTxnList st sid)"
    and "opTime_le (getOpTime op) (beginApplyingOpTime opts) \<or> buffered opts op
           \<Longrightarrow> ops st' = ops st"
proof -
  let ?T = "tracked env tr op st"
  let ?A = "afterCrud env p op (cleared op ?T)"
  have cvT: "cacheValid env (collPropertiesCache ?T)" by (rule cacheValid_tracked [OF cv])
  have dT: "deref ?T p = Some op" by (rule deref_tracked [OF d])
  have cvA: "cacheValid env (collPropertiesCache ?A)"
    using cvT by (simp add: cacheValid_afterCrud)
  let ?C = "cleared op ?T"
  have A: "partialTxnList ?C sid =
     (if getCommandType op = kAbortTransaction \<and> getSessionId op = Some sid then []
      else partialTxnList st sid)"
    by (simp add: partialTxnList_cleared)
  have both: "partialTxnList st' sid =
           (if opTime_le (getOpTime op) (beginApplyingOpTime opts) then partialTxnList st sid
            else if buffered opts op
            then (if getSessionId op = Some sid then partialTxnList st sid @ [p]
                  else partialTxnList st sid)
            else if clearsBuffer opts op sid then [] else partialTxnList st sid) \<and>
         (opTime_le (getOpTime op) (beginApplyingOpTime opts) \<or> buffered opts op
           \<longrightarrow> ops st' = ops st)"
  proof (cases "opTime_le (getOpTime op) (beginApplyingOpTime opts)")
    case True
    with r d have "st' = st" by (simp add: deriveOp_def)
    with True show ?thesis by simp
  next
    case nf: False
    note af = deriveOp_above_floor [OF cv d nf r]
    then have ro: "routeOp env opts p op ?T = Inr st'" by simp
    show ?thesis
    proof (cases "buffered opts op")
      case True
      with ro have "bufferPartialTxnOp p op ?T = Inr st'"
        by (simp add: routeOp_def buffered_def)
      from bufferPartialTxnOp_Inr [OF this] obtain s where
        s: "getSessionId op = Some s"
        and st': "st' = ?T\<lparr>partialTxnOps := (partialTxnOps ?T)(s \<mapsto> partialTxnList ?T s @ [p])\<rparr>"
        by blast
      show ?thesis using nf True s unfolding st' by (auto simp: partialTxnList_def)
    next
      case nb: False
      then have nb': "\<not> (isPartialTransaction op \<or> (shouldPrepare op \<and> mode opts = kInitialSync))"
        by (simp add: buffered_def)
      note u = routeOp_unbuffered [OF cvT dT nb' ro, unfolded Let_def]
      have flatM: "partialTxnList st' sid = (if sid = s then [] else partialTxnList ?C sid)"
        if m: "materializeTransaction env op' s ?A = Inr st'" for op' s
      proof -
        from materializeTransaction_Inr [OF cvA m] obtain v where
          "st' = emplaced env v (?A\<lparr>partialTxnOps := (partialTxnOps ?A)(s \<mapsto> [])\<rparr>)" by blast
        then show ?thesis by (simp add: partialTxnList_def)
      qed
      have flatE: "partialTxnList st' sid = partialTxnList ?C sid"
        if e: "emplaceAndAddDerivedOps env w ?A = Inr st'" for w
        using emplaceAndAddDerivedOps_Inr [OF cvA e] by simp
      have flatW: "partialTxnList st' sid = partialTxnList ?C sid"
        if e: "addToWriterVector q h ?A = Inr st'" for q h
        using addToWriterVector_Inr [OF e] by simp
      have "partialTxnList st' sid = (if clearsBuffer opts op sid then [] else partialTxnList st sid)"
      proof (cases "isTerminalApplyOps op")
        case t: True
        show ?thesis
        proof (cases "getSessionId op")
          case None
          with u t have "partialTxnList st' sid = partialTxnList ?C sid"
            by (auto split: if_splits intro: flatE)
          with None show ?thesis by (simp add: A clearsBuffer_def)
        next
          case (Some s)
          show ?thesis
          proof (cases "getTxnNumber op = None")
            case True
            with u t Some have "partialTxnList st' sid = partialTxnList ?C sid"
              by (auto split: if_splits intro: flatE)
            with Some True t show ?thesis by (simp add: A clearsBuffer_def endsTransaction_def)
          next
            case False
            with u t Some have "materializeTransaction env (markCapped env op) s ?A = Inr st'"
              by auto
            from flatM [OF this] Some False t show ?thesis
              by (auto simp: A clearsBuffer_def endsTransaction_def)
          qed
        qed
      next
        case nt: False
        show ?thesis
        proof (cases "isPreparedCommit op \<and> mode opts = kInitialSync")
          case True
          with u nt obtain s where s: "getSessionId op = Some s"
            and "materializeTransaction env (markCapped env op) s ?A = Inr st'"
            by (auto split: option.splits)
          from flatM [OF this(2)] s True nt show ?thesis
            by (auto simp: A clearsBuffer_def endsTransaction_def)
        next
          case False
          with u nt have "addToWriterVector p (routeHash env op) ?A = Inr st'" by auto
          from flatW [OF this] False nt show ?thesis
            by (auto simp: A clearsBuffer_def endsTransaction_def)
        qed
      qed
      with nf nb show ?thesis by simp
    qed
  qed
  from both show "partialTxnList st' sid =
           (if opTime_le (getOpTime op) (beginApplyingOpTime opts) then partialTxnList st sid
            else if buffered opts op
            then (if getSessionId op = Some sid then partialTxnList st sid @ [p]
                  else partialTxnList st sid)
            else if clearsBuffer opts op sid then [] else partialTxnList st sid)"
    by blast
  from both show "opTime_le (getOpTime op) (beginApplyingOpTime opts) \<or> buffered opts op
           \<Longrightarrow> ops st' = ops st"
    by blast
qed

lemma forEachOp_append:
  "forEachOp body (xs @ ys) st =
     (case forEachOp body xs st of Inl e \<Rightarrow> Inl e | Inr s \<Rightarrow> forEachOp body ys s)"
  by (induction xs arbitrary: st) (simp_all split: sum.splits)

lemma pendingPartial_props:
  "i \<in> set (pendingPartial opts batch sid n) \<Longrightarrow>
   i < n \<and> buffered opts (batch ! i) \<and>
   \<not> opTime_le (getOpTime (batch ! i)) (beginApplyingOpTime opts) \<and>
   getSessionId (batch ! i) = Some sid"
  by (induction n) (auto simp: Let_def less_Suc_eq split: if_splits)

text \<open>The pass over the first \<open>n\<close> entries of the batch: the list saved for a session,
  and the entries that are as they were.\<close>

lemma pass_prefix:
  assumes "forEachOp (deriveOp env opts tr) (map InputOp [0..<n]) st0 = Inr s"
    and "cacheValid env (collPropertiesCache st0)" and "n \<le> length (ops st0)"
    and "\<forall>sid. partialTxnList st0 sid = []"
  shows "cacheValid env (collPropertiesCache s) \<and>
         length (ops s) = length (ops st0) \<and>
         (\<forall>sid. partialTxnList s sid = map InputOp (pendingPartial opts (ops st0) sid n)) \<and>
         (\<forall>i < length (ops st0).
            n \<le> i \<or> opTime_le (getOpTime (ops st0 ! i)) (beginApplyingOpTime opts) \<or>
            buffered opts (ops st0 ! i) \<longrightarrow> ops s ! i = ops st0 ! i)"
  using assms(1,3)
proof (induction n arbitrary: s)
  case 0
  with assms(2,4) show ?case by simp
next
  case (Suc n)
  from Suc.prems(1) obtain s1 where
    p: "forEachOp (deriveOp env opts tr) (map InputOp [0..<n]) st0 = Inr s1"
    and r: "deriveOp env opts tr (InputOp n) s1 = Inr s"
    by (auto simp: forEachOp_append split: sum.splits)
  from Suc.prems(2) have n: "n < length (ops st0)" by simp
  then have "n \<le> length (ops st0)" by simp
  from Suc.IH [OF p this] have cv1: "cacheValid env (collPropertiesCache s1)"
    and len1: "length (ops s1) = length (ops st0)"
    and pl1: "\<And>sid. partialTxnList s1 sid = map InputOp (pendingPartial opts (ops st0) sid n)"
    and keep1: "\<And>i. i < length (ops st0) \<Longrightarrow>
            n \<le> i \<or> opTime_le (getOpTime (ops st0 ! i)) (beginApplyingOpTime opts) \<or>
            buffered opts (ops st0 ! i) \<Longrightarrow> ops s1 ! i = ops st0 ! i"
    by blast+
  let ?op = "ops st0 ! n"
  have d: "deref s1 (InputOp n) = Some ?op"
    using n len1 keep1 [of n] by simp
  from deriveOp_shape [OF cv1 r] d have sh: "stepShape env opts tr (InputOp n) ?op s1 s"
    by simp
  note eff = stepShape_effect [OF cv1 d sh]
  note part = deriveOp_partial [OF cv1 d r]
  have len: "length (ops s) = length (ops st0)"
    using eff(4) len1 by auto
  have other: "ops s ! i = ops s1 ! i" if "i \<noteq> n" for i
    using eff(4) that by auto
  have pl: "partialTxnList s sid = map InputOp (pendingPartial opts (ops st0) sid (Suc n))"
    for sid
    by (simp add: part(1) pl1 Let_def)
  have keep: "ops s ! i = ops st0 ! i"
    if "i < length (ops st0)"
      and "Suc n \<le> i \<or> opTime_le (getOpTime (ops st0 ! i)) (beginApplyingOpTime opts) \<or>
            buffered opts (ops st0 ! i)" for i
  proof (cases "i = n")
    case True
    with that(2) have "ops s = ops s1" by (auto intro: part(2))
    with True keep1 [of n] n show ?thesis by simp
  next
    case False
    with that keep1 [of i] other [of i] show ?thesis by auto
  qed
  from eff(1) len pl keep show ?case by blast
qed

lemma filter_appendAt:
  "map (filter Q) (appendAt w p wvs) =
     (if Q p then appendAt w p (map (filter Q) wvs) else map (filter Q) wvs)"
proof (cases "w < length wvs")
  case True
  then show ?thesis
    by (auto simp: appendAt_def map_update list_update_same_conv)
next
  case False
  then show ?thesis by (simp add: appendAt_def list_update_beyond)
qed

lemma isDerivedOf_simps [simp]:
  "\<not> isDerivedOf k (InputOp i)" "isDerivedOf k (DerivedOp k' j) \<longleftrightarrow> k' = k"
  by (simp_all add: isDerivedOf_def)

lemma filter_routeDerived:
  "k' \<noteq> k \<Longrightarrow>
   map (filter (isDerivedOf k)) (routeDerived env k' v n wvs) = map (filter (isDerivedOf k)) wvs"
  by (induction n) (simp_all add: routeDerived_Suc filter_appendAt, simp add: routeDerived_def)

lemma derivedOps_setOp:
  "\<not> isDerivedOf k p \<Longrightarrow>
   length (derivedOps (setOp p x st)) = length (derivedOps st) \<and>
   derivedOps (setOp p x st) ! k = derivedOps st ! k"
  by (cases p) auto

lemma derivedOps_afterCrud:
  "\<not> isDerivedOf k p \<Longrightarrow>
   length (derivedOps (afterCrud env p op st)) = length (derivedOps st) \<and>
   derivedOps (afterCrud env p op st) ! k = derivedOps st ! k"
  using derivedOps_setOp [of k p "markCapped env op" st] by (simp add: afterCrud_def)

lemma tracked_keeps:
  assumes "k < length (derivedOps st)"
  shows "length (derivedOps st) \<le> length (derivedOps (tracked env tr op st)) \<and>
         derivedOps (tracked env tr op st) ! k = derivedOps st ! k \<and>
         map (filter (isDerivedOf k)) (writerVectors (tracked env tr op st)) =
           map (filter (isDerivedOf k)) (writerVectors st)"
  using assms
  by (auto simp: tracked_def nth_append filter_routeDerived split: prod.splits option.splits)

text \<open>A turn of the loop for another pointer leaves a vector of derived entries, and the
  pointers into it, as they are.\<close>

lemma stepShape_keeps:
  assumes k: "k < length (derivedOps st)" and p: "\<not> isDerivedOf k p"
    and s: "stepShape env opts tr p op st st'"
  shows "k < length (derivedOps st') \<and> derivedOps st' ! k = derivedOps st ! k \<and>
         map (filter (isDerivedOf k)) (writerVectors st') =
           map (filter (isDerivedOf k)) (writerVectors st)"
proof -
  let ?T = "tracked env tr op st"
  let ?A = "afterCrud env p op ?T"
  note T = tracked_keeps [OF k, of env tr op]
  then have kT: "k < length (derivedOps ?T)" using k by simp
  note A = derivedOps_afterCrud [OF p, of env op ?T]
  have kA: "k < length (derivedOps ?A)" using A kT by simp
  have nk: "length (derivedOps ?A) \<noteq> k" using kA by simp
  from s consider "st' = st"
    | pm where "st' = ?T\<lparr>partialTxnOps := pm\<rparr>"
    | v pm where "st' = (emplaced env v ?A)\<lparr>partialTxnOps := pm\<rparr>"
    | w pm where "st' = ?A\<lparr>writerVectors := appendAt w p (writerVectors ?T), partialTxnOps := pm\<rparr>"
    by (auto simp: stepShape_def)
  then show ?thesis
  proof cases
    case 1
    with k show ?thesis by simp
  next
    case 2
    with T kT show ?thesis by simp
  next
    case 3
    with T A kA nk show ?thesis by (simp add: nth_append filter_routeDerived)
  next
    case 4
    with T A kA p show ?thesis by (simp add: filter_appendAt)
  qed
qed

lemma forEachOp_keeps:
  assumes "forEachOp (deriveOp env opts tr) ps st = Inr st'"
    and "cacheValid env (collPropertiesCache st)"
    and "k < length (derivedOps st)" and "\<forall>p \<in> set ps. \<not> isDerivedOf k p"
  shows "k < length (derivedOps st') \<and> derivedOps st' ! k = derivedOps st ! k \<and>
         map (filter (isDerivedOf k)) (writerVectors st') =
           map (filter (isDerivedOf k)) (writerVectors st)"
  using assms
proof (induction ps arbitrary: st)
  case Nil
  then show ?case by simp
next
  case (Cons p ps)
  from Cons.prems(1) obtain s1 where
    s1: "deriveOp env opts tr p st = Inr s1"
    and rest: "forEachOp (deriveOp env opts tr) ps s1 = Inr st'"
    by (auto split: sum.splits)
  from deriveOp_shape [OF Cons.prems(2) s1] obtain op where
    d: "deref st p = Some op" and sh: "stepShape env opts tr p op st s1"
    by blast
  note eff = stepShape_effect [OF Cons.prems(2) d sh]
  from Cons.prems(4) have p: "\<not> isDerivedOf k p" and ps: "\<forall>p \<in> set ps. \<not> isDerivedOf k p"
    by simp_all
  note one = stepShape_keeps [OF Cons.prems(3) p sh]
  from Cons.IH [OF rest eff(1) _ ps] one show ?case by simp
qed

lemma those_map_Some:
  "(\<And>x. x \<in> set xs \<Longrightarrow> f x = Some (g x)) \<Longrightarrow> those (map f xs) = Some (map g xs)"
  by (induction xs) simp_all

lemma routedWell_no_new:
  assumes "routedWell env st" and "w < length (writerVectors st)"
  shows "filter (isDerivedOf (length (derivedOps st))) (writerVectors st ! w) = []"
proof -
  have "\<not> isDerivedOf (length (derivedOps st)) p" if "p \<in> set (writerVectors st ! w)" for p
  proof -
    from routedWellD [OF assms that] obtain op where "deref st p = Some op" by blast
    from deref_valid_not_new [OF this] show ?thesis by (cases p) auto
  qed
  then show ?thesis by (simp add: filter_empty_conv)
qed

lemma filter_map_DerivedOp: "filter (isDerivedOf k) (map (DerivedOp k) js) = map (DerivedOp k) js"
  by (induction js) simp_all

text \<open>
  C3. \<open>fillWriterVectors\<close> on a batch whose entry \<open>t\<close> is the last entry of a
  transaction of session \<open>sid\<close>: a command above the floor that is not saved for later and
  is not an abort, and that is a terminal \<open>applyOps\<close> with a transaction number or a
  prepared commit in initial sync. The pass over the entries up to \<open>t\<close> returns, and
  leaves the list saved for the session empty. The vector of \<open>derivedOps\<close> it has added
  last is, in the result of \<open>fillWriterVectors\<close>, the list that
  \<open>readTransactionOperationsFromOplogChain\<close> gives for the entry and the entries of the
  batch saved for the session before \<open>t\<close> (\<open>pendingPartial\<close>, in the order of the batch),
  with the inserts into capped collections marked. The pointers into that vector that the
  writer vectors of the result hold are, in each writer vector, the pointers to the
  flattened entries that hash to it, each once and in the order of the list. The pointer to
  entry \<open>t\<close> itself is in no writer vector.
\<close>

theorem transaction_materialization:
  assumes fill: "fillWriterVectors env opts batch (replicate W []) [] = Inr st'"
    and t: "t < length batch"
    and above: "\<not> opTime_le (getOpTime (batch ! t)) (beginApplyingOpTime opts)"
    and nb: "\<not> buffered opts (batch ! t)"
    and cmd: "getOpType (batch ! t) = kCommand"
    and na: "getCommandType (batch ! t) \<noteq> kAbortTransaction"
    and ends: "endsTransaction opts (batch ! t)"
    and sid: "getSessionId (batch ! t) = Some sid"
  shows "\<exists>s k.
           forEachOp (deriveOp env opts True) (map InputOp [0..<Suc t])
             (initialFillState env batch (replicate W []) []) = Inr s \<and>
           partialTxnOps s sid = Some [] \<and>
           Suc k = length (derivedOps s) \<and> k < length (derivedOps st') \<and>
           (let flat = readTransactionOperationsFromOplogChain env (batch ! t)
                         (map ((!) batch) (pendingPartial opts batch sid t))
            in derivedOps st' ! k = map (markCapped env) flat \<and>
               (\<forall>w < W. filter (isDerivedOf k) (writerVectors st' ! w) =
                  map (DerivedOp k)
                    (filter (\<lambda>j. workerIndex env W (flat ! j) = w) [0..<length flat]))) \<and>
           \<not> present (InputOp t) (writerVectors st')"
proof -
  let ?st0 = "initialFillState env batch (replicate W []) []"
  let ?op = "batch ! t"
  let ?pend = "pendingPartial opts batch sid t"
  let ?flat = "readTransactionOperationsFromOplogChain env ?op (map ((!) batch) ?pend)"
  have st0: "ops ?st0 = batch" "cacheValid env (collPropertiesCache ?st0)"
    "\<forall>sid. partialTxnList ?st0 sid = []" "writerVectors ?st0 = replicate W []"
    by (simp_all add: initialFillState_def cacheValid_empty partialTxnList_def)
  have r0: "routedWell env ?st0"
    unfolding routedWell_iff by (simp add: initialFillState_def)
  from fill obtain st1 where
    p1: "deriveOpsAndFillWriterVectors env opts None True ?st0 = Inr st1"
    by (auto simp: fillWriterVectors_def split: sum.splits)
  then have pass1: "forEachOp (deriveOp env opts True) (map InputOp [0..<length batch]) ?st0
      = Inr st1"
    by (simp add: deriveOpsAndFillWriterVectors_def srcPtrs_def initialFillState_def)
  have e: "Suc t + (length batch - Suc t) = length batch" using t by simp
  have split: "[0..<length batch] = [0..<Suc t] @ [Suc t..<length batch]"
    using upt_add_eq_append [of 0 "Suc t" "length batch - Suc t"] unfolding e
    by (simp del: upt_Suc)
  from pass1 obtain s where
    ps: "forEachOp (deriveOp env opts True) (map InputOp [0..<Suc t]) ?st0 = Inr s"
    and rest: "forEachOp (deriveOp env opts True) (map InputOp [Suc t..<length batch]) s = Inr st1"
    unfolding split map_append forEachOp_append by (auto split: sum.splits)
  from ps obtain st where
    pt: "forEachOp (deriveOp env opts True) (map InputOp [0..<t]) ?st0 = Inr st"
    and r: "deriveOp env opts True (InputOp t) st = Inr s"
    by (auto simp: forEachOp_append split: sum.splits)
  have "t \<le> length (ops ?st0)" "Suc t \<le> length (ops ?st0)" using t by (simp_all add: st0(1))
  note pp = pass_prefix [OF pt st0(2) this(1) st0(3), unfolded st0(1)]
    and pp' = pass_prefix [OF ps st0(2) this(2) st0(3), unfolded st0(1)]
  from pp have cv: "cacheValid env (collPropertiesCache st)"
    and len: "length (ops st) = length batch"
    and pl: "partialTxnList st sid = map InputOp ?pend"
    and keep: "\<And>i. i < length batch \<Longrightarrow>
            t \<le> i \<or> opTime_le (getOpTime (batch ! i)) (beginApplyingOpTime opts) \<or>
            buffered opts (batch ! i) \<Longrightarrow> ops st ! i = batch ! i"
    by blast+
  from pp' have cvs: "cacheValid env (collPropertiesCache s)" by blast
  have rw: "routedWell env st" by (rule forEachOp_routedWell [OF pt st0(2) r0])
  have W: "length (writerVectors st) = W"
    using pass_input [OF pt st0(2), of batch] by (simp add: st0)
  have d: "deref st (InputOp t) = Some ?op"
    using t len keep [of t] by simp
  have nb': "\<not> isPartialTransaction ?op" "\<not> (shouldPrepare ?op \<and> mode opts = kInitialSync)"
    using nb by (simp_all add: buffered_def)
  from deriveOp_terminal_entry [OF cv d above nb' cmd na ends [unfolded endsTransaction_def] sid r]
  obtain T partialOps where
    T: "trackSession env True ?op st = Inr T"
    and po: "those (map (deref T) (partialTxnList st sid)) = Some partialOps"
    and ds: "derivedOps s = derivedOps T @
               [map (markCapped env) (readTransactionOperationsFromOplogChain env ?op partialOps)]"
    and lw: "length (writerVectors s) = length (writerVectors T)"
    and wv: "\<And>w. w < length (writerVectors T) \<Longrightarrow>
              writerVectors s ! w =
                writerVectors T ! w @
                  map (DerivedOp (length (derivedOps T)))
                    (filter (\<lambda>j. workerIndex env (length (writerVectors T))
                                   (readTransactionOperationsFromOplogChain env ?op partialOps ! j) = w)
                       [0..<length (readTransactionOperationsFromOplogChain env ?op partialOps)])"
    and empty: "partialTxnOps s sid = Some []"
    by blast
  have Teq: "T = tracked env True ?op st" by (rule trackSession_Inr [OF cv T])
  have WT: "length (writerVectors T) = W" using W by (simp add: Teq)
  have rwT: "routedWell env T" unfolding Teq by (rule routedWell_tracked [OF rw])
  have "those (map (\<lambda>i. deref T (InputOp i)) ?pend) = Some (map ((!) batch) ?pend)"
  proof (rule those_map_Some)
    fix i assume i: "i \<in> set ?pend"
    from pendingPartial_props [OF i] t have "i < length batch" "buffered opts (batch ! i)"
      by simp_all
    with keep [of i] len have "deref st (InputOp i) = Some (batch ! i)" by simp
    then show "deref T (InputOp i) = Some (batch ! i)" unfolding Teq by (rule deref_tracked)
  qed
  then have "those (map (deref T) (map InputOp ?pend)) = Some (map ((!) batch) ?pend)"
    by (simp add: comp_def)
  with po pl have partialOps: "partialOps = map ((!) batch) ?pend" by simp
  let ?k = "length (derivedOps T)"
  have k: "Suc ?k = length (derivedOps s)" "?k < length (derivedOps s)"
    "derivedOps s ! ?k = map (markCapped env) ?flat"
    by (simp_all add: ds partialOps)
  have wvs: "filter (isDerivedOf ?k) (writerVectors s ! w) =
      map (DerivedOp ?k) (filter (\<lambda>j. workerIndex env W (?flat ! j) = w) [0..<length ?flat])"
    if "w < W" for w
    using wv [of w] that routedWell_no_new [OF rwT, of w]
    by (simp add: WT partialOps filter_map_DerivedOp)
  have inp: "\<forall>p \<in> set (map InputOp js). \<not> isDerivedOf ?k p" for js
    by simp
  note k1 = forEachOp_keeps [OF rest cvs k(2) inp]
  have k': "?k < length (derivedOps st') \<and> derivedOps st' ! ?k = derivedOps st1 ! ?k \<and>
         map (filter (isDerivedOf ?k)) (writerVectors st') =
           map (filter (isDerivedOf ?k)) (writerVectors st1)"
  proof (cases "flushAll env (sessionUpdateTracker st1) = []")
    case True
    with fill p1 k1 show ?thesis by (simp add: fillWriterVectors_def)
  next
    case False
    let ?st2 = "st1\<lparr>derivedOps := derivedOps st1 @ [flushAll env (sessionUpdateTracker st1)]\<rparr>"
    from fill p1 False have
      "deriveOpsAndFillWriterVectors env opts (Some (length (derivedOps ?st2) - 1)) False ?st2
         = Inr st'"
      by (simp add: fillWriterVectors_def Let_def)
    then have p2: "forEachOp (deriveOp env opts False)
        (map (DerivedOp (length (derivedOps st1))) [0..<length (flushAll env (sessionUpdateTracker st1))])
        (?st2\<lparr>partialTxnOps := Map.empty, collPropertiesCache := Map.empty\<rparr>) = Inr st'"
      by (simp add: deriveOpsAndFillWriterVectors_def srcPtrs_def)
    have "\<forall>p \<in> set (map (DerivedOp (length (derivedOps st1)))
        [0..<length (flushAll env (sessionUpdateTracker st1))]). \<not> isDerivedOf ?k p"
      using k1 by auto
    from forEachOp_keeps [OF p2 _ _ this] k1 show ?thesis
      by (simp add: cacheValid_empty nth_append)
  qed
  have W': "length (writerVectors st') = W" "length (writerVectors st1) = W"
    using fill_inputPart(3) [OF fill] pass_input [OF pass1 st0(2), of batch]
    by (simp_all add: st0)
  have final: "filter (isDerivedOf ?k) (writerVectors st' ! w) =
      map (DerivedOp ?k) (filter (\<lambda>j. workerIndex env W (?flat ! j) = w) [0..<length ?flat])"
    if w: "w < W" for w
  proof -
    have "filter (isDerivedOf ?k) (writerVectors st' ! w) =
        map (filter (isDerivedOf ?k)) (writerVectors st') ! w"
      using w W' by simp
    also have "\<dots> = map (filter (isDerivedOf ?k)) (writerVectors s) ! w"
      using k' k1 by simp
    also have "\<dots> = filter (isDerivedOf ?k) (writerVectors s ! w)"
      using w lw WT by simp
    finally show ?thesis using wvs [OF w] by simp
  qed
  have "\<not> routed opts ?op" using ends by (auto simp: routed_def absorbed_def endsTransaction_def)
  with fill_present_iff [OF fill t] have np: "\<not> present (InputOp t) (writerVectors st')"
    by simp
  from ps empty k(1) k' k1 k(3) final np show ?thesis
    by (intro exI [of _ s] exI [of _ ?k]) (simp add: Let_def)
qed


lemmas txn_defs = txnBatch_def txnOp_def abortBatch_def abortOp_def

lemma txn_buffered_run:
  "forEachOp (deriveOp exampleEnv exampleOptions True) [InputOp 0, InputOp 1]
     (initialFillState exampleEnv txnBatch (replicate 2 []) []) = Inr txnBuffered"
  unfolding replicate_two
  by (simp add: fill_defs example_defs txn_defs txnBuffered_def Let_def)

lemma txn_terminal_step:
  "deriveOp exampleEnv exampleOptions True (InputOp 2) txnBuffered = Inr txnResult"
  by (simp add: fill_defs example_defs txn_defs txnBuffered_def txnResult_def Let_def upt_rec)

lemma txn_run:
  "fillWriterVectors exampleEnv exampleOptions txnBatch (replicate 2 []) [] = Inr txnFilled"
  unfolding replicate_two
  by (simp add: fill_defs example_defs txn_defs txnFilled_def Let_def upt_rec)

lemma txn_prefix_run:
  "forEachOp (deriveOp exampleEnv exampleOptions True) (map InputOp [0..<Suc 2])
     (initialFillState exampleEnv txnBatch (replicate 2 []) []) = Inr txnResult"
proof -
  have "map InputOp [0..<Suc 2] = [InputOp 0, InputOp 1] @ [InputOp 2]"
    by (simp add: upt_rec)
  then have "forEachOp (deriveOp exampleEnv exampleOptions True) (map InputOp [0..<Suc 2])
     (initialFillState exampleEnv txnBatch (replicate 2 []) []) =
     forEachOp (deriveOp exampleEnv exampleOptions True) [InputOp 2] txnBuffered"
    by (simp only: forEachOp_append txn_buffered_run sum.case)
  then show ?thesis by (simp add: txn_terminal_step)
qed

theorem transaction_materialization_witness:
  "fillWriterVectors exampleEnv exampleOptions txnBatch (replicate 2 []) [] = Inr txnFilled \<and>
   (2::nat) < length txnBatch \<and>
   \<not> opTime_le (getOpTime (txnBatch ! 2)) (beginApplyingOpTime exampleOptions) \<and>
   \<not> buffered exampleOptions (txnBatch ! 2) \<and>
   getOpType (txnBatch ! 2) = kCommand \<and> getCommandType (txnBatch ! 2) = kApplyOps \<and>
   isTerminalApplyOps (txnBatch ! 2) \<and> getTxnNumber (txnBatch ! 2) = Some 7 \<and>
   endsTransaction exampleOptions (txnBatch ! 2) \<and>
   getSessionId (txnBatch ! 2) = Some 5 \<and>
   pendingPartial exampleOptions txnBatch 5 2 = [0, 1] \<and>
   forEachOp (deriveOp exampleEnv exampleOptions True) (map InputOp [0..<Suc 2])
     (initialFillState exampleEnv txnBatch (replicate 2 []) []) = Inr txnResult \<and>
   partialTxnOps txnResult 5 = Some [] \<and>
   derivedOps txnFilled ! 0 =
     map (markCapped exampleEnv)
       (readTransactionOperationsFromOplogChain exampleEnv (txnBatch ! 2)
          [txnBatch ! 0, txnBatch ! 1]) \<and>
   filter (isDerivedOf 0) (writerVectors txnFilled ! 0) =
     [DerivedOp 0 0, DerivedOp 0 1, DerivedOp 0 2] \<and>
   filter (isDerivedOf 0) (writerVectors txnFilled ! 1) = [] \<and>
   \<not> present (InputOp 2) (writerVectors txnFilled)"
proof -
  have h: "(2::nat) < length txnBatch"
    "\<not> opTime_le (getOpTime (txnBatch ! 2)) (beginApplyingOpTime exampleOptions)"
    "\<not> buffered exampleOptions (txnBatch ! 2)"
    "getOpType (txnBatch ! 2) = kCommand"
    "getCommandType (txnBatch ! 2) \<noteq> kAbortTransaction"
    "endsTransaction exampleOptions (txnBatch ! 2)"
    "getSessionId (txnBatch ! 2) = Some 5"
    by (simp_all add: txn_defs exampleOp_def exampleOptions_def opTime_le_def buffered_def
        endsTransaction_def)
  have v: "getCommandType (txnBatch ! 2) = kApplyOps" "isTerminalApplyOps (txnBatch ! 2)"
    "getTxnNumber (txnBatch ! 2) = Some 7"
    by (simp_all add: txn_defs exampleOp_def)
  have pend: "pendingPartial exampleOptions txnBatch 5 2 = [0, 1]"
    by (simp add: numeral_2_eq_2 txn_defs exampleOp_def exampleOptions_def opTime_le_def
        buffered_def Let_def)
  from transaction_materialization [OF txn_run h] obtain s k where
    s: "forEachOp (deriveOp exampleEnv exampleOptions True) (map InputOp [0..<Suc 2])
          (initialFillState exampleEnv txnBatch (replicate 2 []) []) = Inr s"
    and e: "partialTxnOps s 5 = Some []" and k: "Suc k = length (derivedOps s)"
    and c: "let flat = readTransactionOperationsFromOplogChain exampleEnv (txnBatch ! 2)
                         (map ((!) txnBatch) (pendingPartial exampleOptions txnBatch 5 2))
            in derivedOps txnFilled ! k = map (markCapped exampleEnv) flat \<and>
               (\<forall>w < 2. filter (isDerivedOf k) (writerVectors txnFilled ! w) =
                  map (DerivedOp k)
                    (filter (\<lambda>j. workerIndex exampleEnv 2 (flat ! j) = w) [0..<length flat]))"
    and np: "\<not> present (InputOp 2) (writerVectors txnFilled)"
    by blast
  from s txn_prefix_run have s': "s = txnResult" by simp
  with k have k0: "k = 0" by (simp add: txnResult_def)
  from e s' have e': "partialTxnOps txnResult 5 = Some []" by simp
  from c have d: "derivedOps txnFilled ! 0 =
     map (markCapped exampleEnv)
       (readTransactionOperationsFromOplogChain exampleEnv (txnBatch ! 2)
          [txnBatch ! 0, txnBatch ! 1])"
    unfolding k0 pend Let_def by simp
  have f: "filter (isDerivedOf 0) (writerVectors txnFilled ! 0) =
       [DerivedOp 0 0, DerivedOp 0 1, DerivedOp 0 2]"
    "filter (isDerivedOf 0) (writerVectors txnFilled ! 1) = []"
    by (simp_all add: txnFilled_def isDerivedOf_def)
  from txn_run h(1,2,3,4,6,7) v pend txn_prefix_run e' d f np show ?thesis by simp
qed






subsection \<open>Two runs: another catalog with the same properties, other flags in the batch\<close>

lemma getCollectionProperties_catalog:
  assumes "\<forall>ns. getCollectionPropertiesImpl (env\<lparr>getDb := g\<rparr>) ns = getCollectionPropertiesImpl env ns"
  shows "getCollectionProperties (env\<lparr>getDb := g\<rparr>) = getCollectionProperties env"
  using assms by (simp add: fun_eq_iff getCollectionProperties_def cong: option.case_cong)

lemma processCrudOp_catalog:
  assumes "\<forall>ns. getCollectionPropertiesImpl (env\<lparr>getDb := g\<rparr>) ns = getCollectionPropertiesImpl env ns"
  shows "processCrudOp (env\<lparr>getDb := g\<rparr>) = processCrudOp env"
  by (simp add: fun_eq_iff processCrudOp_def getCollectionProperties_catalog [OF assms]
      Let_def cong: option.case_cong prod.case_cong sum.case_cong if_cong)

lemma addDerivedOp_catalog:
  assumes "\<forall>ns. getCollectionPropertiesImpl (env\<lparr>getDb := g\<rparr>) ns = getCollectionPropertiesImpl env ns"
  shows "addDerivedOp (env\<lparr>getDb := g\<rparr>) = addDerivedOp env"
  by (simp add: fun_eq_iff addDerivedOp_def processCrudOp_catalog [OF assms]
      Let_def cong: option.case_cong prod.case_cong sum.case_cong if_cong)

lemma emplaceAndAddDerivedOps_catalog:
  assumes "\<forall>ns. getCollectionPropertiesImpl (env\<lparr>getDb := g\<rparr>) ns = getCollectionPropertiesImpl env ns"
  shows "emplaceAndAddDerivedOps (env\<lparr>getDb := g\<rparr>) = emplaceAndAddDerivedOps env"
  by (simp add: fun_eq_iff emplaceAndAddDerivedOps_def addDerivedOp_catalog [OF assms]
      Let_def cong: option.case_cong prod.case_cong sum.case_cong if_cong)

lemma trackSession_catalog:
  assumes "\<forall>ns. getCollectionPropertiesImpl (env\<lparr>getDb := g\<rparr>) ns = getCollectionPropertiesImpl env ns"
  shows "trackSession (env\<lparr>getDb := g\<rparr>) = trackSession env"
  by (simp add: fun_eq_iff trackSession_def emplaceAndAddDerivedOps_catalog [OF assms]
      Let_def cong: option.case_cong prod.case_cong sum.case_cong if_cong)

lemma materializeTransaction_catalog:
  assumes "\<forall>ns. getCollectionPropertiesImpl (env\<lparr>getDb := g\<rparr>) ns = getCollectionPropertiesImpl env ns"
  shows "materializeTransaction (env\<lparr>getDb := g\<rparr>) = materializeTransaction env"
  by (simp add: fun_eq_iff materializeTransaction_def emplaceAndAddDerivedOps_catalog [OF assms]
      Let_def cong: option.case_cong prod.case_cong sum.case_cong if_cong)

lemma routeOp_catalog:
  assumes "\<forall>ns. getCollectionPropertiesImpl (env\<lparr>getDb := g\<rparr>) ns = getCollectionPropertiesImpl env ns"
  shows "routeOp (env\<lparr>getDb := g\<rparr>) = routeOp env"
  by (simp add: fun_eq_iff routeOp_def emplaceAndAddDerivedOps_catalog [OF assms]
      materializeTransaction_catalog [OF assms] processCrudOp_catalog [OF assms]
      Let_def cong: option.case_cong prod.case_cong sum.case_cong if_cong)

lemma deriveOp_catalog:
  assumes "\<forall>ns. getCollectionPropertiesImpl (env\<lparr>getDb := g\<rparr>) ns = getCollectionPropertiesImpl env ns"
  shows "deriveOp (env\<lparr>getDb := g\<rparr>) = deriveOp env"
  by (simp add: fun_eq_iff deriveOp_def trackSession_catalog [OF assms] routeOp_catalog [OF assms]
      cong: option.case_cong sum.case_cong if_cong)

lemma fillWriterVectors_catalog:
  assumes "\<forall>ns. getCollectionPropertiesImpl (env\<lparr>getDb := g\<rparr>) ns = getCollectionPropertiesImpl env ns"
  shows "fillWriterVectors (env\<lparr>getDb := g\<rparr>) opts batch wvs dops =
         fillWriterVectors env opts batch wvs dops"
  by (simp add: fillWriterVectors_def deriveOpsAndFillWriterVectors_def initialFillState_def
      deriveOp_catalog [OF assms] Let_def cong: sum.case_cong if_cong)

lemma unflag_fields [simp]:
  "getOpType (unflag op) = getOpType op" "getNss (unflag op) = getNss op"
  "getUuid (unflag op) = getUuid op" "getOpTime (unflag op) = getOpTime op"
  "getIdElement (unflag op) = getIdElement op" "getSessionId (unflag op) = getSessionId op"
  "getTxnNumber (unflag op) = getTxnNumber op"
  "getPrevWriteOpTimeInTransaction (unflag op) = getPrevWriteOpTimeInTransaction op"
  "getCommandType (unflag op) = getCommandType op"
  "isPartialTransaction (unflag op) = isPartialTransaction op"
  "shouldPrepare (unflag op) = shouldPrepare op" "isPreparedCommit (unflag op) = isPreparedCommit op"
  "isTerminalApplyOps (unflag op) = isTerminalApplyOps op"
  by (simp_all add: unflag_def)

lemma unflag_eq_fields:
  assumes "unflag x = unflag y"
  shows "getOpType x = getOpType y" "getNss x = getNss y"
    "getOpTime x = getOpTime y"
    "getIdElement x = getIdElement y" "getSessionId x = getSessionId y"
    "getTxnNumber x = getTxnNumber y"
    "getPrevWriteOpTimeInTransaction x = getPrevWriteOpTimeInTransaction y"
    "getCommandType x = getCommandType y"
    "isPartialTransaction x = isPartialTransaction y"
    "shouldPrepare x = shouldPrepare y" "isPreparedCommit x = isPreparedCommit y"
    "isTerminalApplyOps x = isTerminalApplyOps y"
proof -
  have c: "f (unflag x) = f (unflag y)" for f :: "'a OplogEntry \<Rightarrow> 'b"
    using assms by simp
  from c [of getOpType] show "getOpType x = getOpType y" by simp
  from c [of getNss] show "getNss x = getNss y" by simp
  from c [of getOpTime] show "getOpTime x = getOpTime y" by simp
  from c [of getIdElement] show "getIdElement x = getIdElement y" by simp
  from c [of getSessionId] show "getSessionId x = getSessionId y" by simp
  from c [of getTxnNumber] show "getTxnNumber x = getTxnNumber y" by simp
  from c [of getPrevWriteOpTimeInTransaction]
  show "getPrevWriteOpTimeInTransaction x = getPrevWriteOpTimeInTransaction y" by simp
  from c [of getCommandType] show "getCommandType x = getCommandType y" by simp
  from c [of isPartialTransaction] show "isPartialTransaction x = isPartialTransaction y" by simp
  from c [of shouldPrepare] show "shouldPrepare x = shouldPrepare y" by simp
  from c [of isPreparedCommit] show "isPreparedCommit x = isPreparedCommit y" by simp
  from c [of isTerminalApplyOps] show "isTerminalApplyOps x = isTerminalApplyOps y" by simp
qed

lemma unflag_set_flag [simp]: "unflag (op\<lparr>isForCappedCollection := f\<rparr>) = unflag op"
  by (simp add: unflag_def)

lemma sameButFlags_length: "sameButFlags a b \<Longrightarrow> length (ops b) = length (ops a)"
  unfolding sameButFlags_def by (metis length_map)

lemma sameButFlags_nth:
  "sameButFlags a b \<Longrightarrow> i < length (ops a) \<Longrightarrow> unflag (ops b ! i) = unflag (ops a ! i)"
  unfolding sameButFlags_def by (metis length_map nth_map)

lemma sameButFlags_deref:
  assumes "sameButFlags a b"
  shows "rel_option (\<lambda>x y. unflag x = unflag y) (deref a p) (deref b p)"
proof (cases p)
  case (InputOp i)
  with sameButFlags_length [OF assms] sameButFlags_nth [OF assms, of i] show ?thesis by simp
next
  case (DerivedOp k j)
  with assms show ?thesis by (simp add: sameButFlags_def)
qed

lemma sameButFlags_markForCapped:
  assumes "sameButFlags a b"
  shows "sameButFlags (markForCapped p a) (markForCapped p b)"
proof (cases p)
  case (InputOp i)
  have "map unflag ((ops b)[i := (ops b ! i)\<lparr>isForCappedCollection := True\<rparr>]) = map unflag (ops b)"
    by (cases "i < length (ops b)") (simp_all add: map_update list_update_same_conv list_update_beyond)
  moreover have "map unflag ((ops a)[i := (ops a ! i)\<lparr>isForCappedCollection := True\<rparr>]) = map unflag (ops a)"
    by (cases "i < length (ops a)") (simp_all add: map_update list_update_same_conv list_update_beyond)
  ultimately show ?thesis using assms InputOp by (simp add: sameButFlags_def)
next
  case (DerivedOp k j)
  with assms show ?thesis by (simp add: sameButFlags_def)
qed

lemma sameButFlags_getCollectionProperties:
  assumes "sameButFlags a b"
  shows "fst (getCollectionProperties env ns b) = fst (getCollectionProperties env ns a) \<and>
         sameButFlags (snd (getCollectionProperties env ns a)) (snd (getCollectionProperties env ns b))"
  using assms by (auto simp: getCollectionProperties_def sameButFlags_def Let_def split: option.splits)

lemma sameButFlags_processCrudOp:
  assumes "sameButFlags a b" and "unflag x = unflag y"
  shows "fst (processCrudOp env p y h b) = fst (processCrudOp env p x h a) \<and>
         sameButFlags (snd (processCrudOp env p x h a)) (snd (processCrudOp env p y h b))"
proof -
  note f = unflag_eq_fields [OF assms(2)]
  obtain cp a1 where ga: "getCollectionProperties env (getNss x) a = (cp, a1)" by fastforce
  obtain cp' b1 where gb: "getCollectionProperties env (getNss x) b = (cp', b1)" by fastforce
  from sameButFlags_getCollectionProperties [OF assms(1), of env "getNss x"] ga gb
  have "cp' = cp" "sameButFlags a1 b1" by simp_all
  then show ?thesis
    using ga gb f sameButFlags_markForCapped [of a1 b1 p]
    by (simp add: processCrudOp_def Let_def)
qed

lemma sameButFlags_addToWriterVector:
  assumes "sameButFlags a b"
  shows "rel_sum (=) sameButFlags (addToWriterVector p h a) (addToWriterVector p h b)"
  using assms by (simp add: addToWriterVector_def sameButFlags_def Let_def)

lemma forEachOp_sim:
  assumes "\<And>p a b. R a b \<Longrightarrow> rel_sum (=) R (body p a) (body' p b)" and "R a b"
  shows "rel_sum (=) R (forEachOp body ps a) (forEachOp body' ps b)"
  using assms(2)
proof (induction ps arbitrary: a b)
  case Nil
  then show ?case by simp
next
  case (Cons p ps)
  from assms(1) [OF Cons.prems, of p] show ?case
    by (cases "body p a"; cases "body' p b") (simp_all add: Cons.IH)
qed

lemma sameButFlags_addDerivedOp:
  assumes "sameButFlags a b"
  shows "rel_sum (=) sameButFlags (addDerivedOp env p a) (addDerivedOp env p b)"
proof (cases "deref a p")
  case None
  with sameButFlags_deref [OF assms, of p] show ?thesis by (simp add: addDerivedOp_def)
next
  case (Some x)
  with sameButFlags_deref [OF assms, of p] obtain y where
    y: "deref b p = Some y" and xy: "unflag x = unflag y"
    by (auto simp: option_rel_Some1)
  note f = unflag_eq_fields [OF xy]
  let ?h = "ucast (stringMapHash env (getNss x)) :: 32 word"
  note pc = sameButFlags_processCrudOp [OF assms xy, of env p ?h]
  show ?thesis
  proof (cases "isCrudOpType (getOpType x)")
    case True
    obtain h1 a1 where pa: "processCrudOp env p x ?h a = (h1, a1)" by fastforce
    obtain h2 b1 where pb: "processCrudOp env p y ?h b = (h2, b1)" by fastforce
    from pc pa pb have "h2 = h1" "sameButFlags a1 b1" by simp_all
    with Some y True f pa pb show ?thesis
      by (simp add: addDerivedOp_def Let_def sameButFlags_addToWriterVector)
  next
    case False
    with Some y f show ?thesis
      by (simp add: addDerivedOp_def Let_def sameButFlags_addToWriterVector [OF assms])
  qed
qed

lemma sameButFlags_emplaceAndAddDerivedOps:
  assumes "sameButFlags a b"
  shows "rel_sum (=) sameButFlags (emplaceAndAddDerivedOps env v a) (emplaceAndAddDerivedOps env v b)"
proof -
  have l: "length (derivedOps b) = length (derivedOps a)"
    using assms by (simp add: sameButFlags_def)
  have "sameButFlags (a\<lparr>derivedOps := derivedOps a @ [v]\<rparr>) (b\<lparr>derivedOps := derivedOps b @ [v]\<rparr>)"
    using assms by (simp add: sameButFlags_def)
  from forEachOp_sim [of sameButFlags "addDerivedOp env" "addDerivedOp env", OF _ this]
  show ?thesis
    by (simp add: emplaceAndAddDerivedOps_def Let_def l sameButFlags_addDerivedOp)
qed

lemma ignoresCappedFlag_updateSession:
  "ignoresCappedFlag env \<Longrightarrow> unflag x = unflag y \<Longrightarrow>
   updateSession env t x = updateSession env t y"
  unfolding ignoresCappedFlag_def by metis

lemma ignoresCappedFlag_extract:
  "ignoresCappedFlag env \<Longrightarrow> unflag x = unflag y \<Longrightarrow>
   extractOperations env x = extractOperations env y"
  unfolding ignoresCappedFlag_def by metis

lemma ignoresCappedFlag_read:
  "ignoresCappedFlag env \<Longrightarrow> unflag x = unflag y \<Longrightarrow> map unflag xs = map unflag ys \<Longrightarrow>
   readTransactionOperationsFromOplogChain env x xs =
   readTransactionOperationsFromOplogChain env y ys"
  unfolding ignoresCappedFlag_def by metis

lemma sameButFlags_trackSession:
  assumes "sameButFlags a b" and "unflag x = unflag y" and "ignoresCappedFlag env"
  shows "rel_sum (=) sameButFlags (trackSession env tr x a) (trackSession env tr y b)"
proof (cases tr)
  case False
  with assms(1) show ?thesis by (simp add: trackSession_def)
next
  case True
  have t: "sessionUpdateTracker b = sessionUpdateTracker a"
    using assms(1) by (simp add: sameButFlags_def)
  obtain w t' where u: "updateSession env (sessionUpdateTracker a) x = (w, t')" by fastforce
  then have u': "updateSession env (sessionUpdateTracker b) y = (w, t')"
    using ignoresCappedFlag_updateSession [OF assms(3,2)] t by simp
  have s: "sameButFlags (a\<lparr>sessionUpdateTracker := t'\<rparr>) (b\<lparr>sessionUpdateTracker := t'\<rparr>)"
    using assms(1) by (simp add: sameButFlags_def)
  show ?thesis
    using True u u' s sameButFlags_emplaceAndAddDerivedOps [OF s]
    by (simp add: trackSession_def Let_def split: option.splits)
qed

lemma sameButFlags_partialTxnList:
  "sameButFlags a b \<Longrightarrow> partialTxnList b sid = partialTxnList a sid"
  by (simp add: sameButFlags_def partialTxnList_def)

lemma sameButFlags_partial_update:
  "sameButFlags a b \<Longrightarrow>
   sameButFlags (a\<lparr>partialTxnOps := pm\<rparr>) (b\<lparr>partialTxnOps := pm\<rparr>)"
  by (simp add: sameButFlags_def)

lemma sameButFlags_bufferPartialTxnOp:
  assumes "sameButFlags a b" and "unflag x = unflag y"
  shows "rel_sum (=) sameButFlags (bufferPartialTxnOp p x a) (bufferPartialTxnOp p y b)"
proof (cases "getSessionId x")
  case None
  with unflag_eq_fields [OF assms(2)] show ?thesis by (simp add: bufferPartialTxnOp_def)
next
  case (Some sid)
  note f = unflag_eq_fields [OF assms(2)]
  note l = sameButFlags_partialTxnList [OF assms(1), of sid]
  have pm: "partialTxnOps b = partialTxnOps a" using assms(1) by (simp add: sameButFlags_def)
  show ?thesis
  proof (cases "partialTxnList a sid")
    case Nil
    with Some f l pm sameButFlags_partial_update [OF assms(1)] show ?thesis
      by (simp add: bufferPartialTxnOp_def Let_def)
  next
    case (Cons front rest)
    show ?thesis
    proof (cases "deref a front")
      case None
      with sameButFlags_deref [OF assms(1), of front] Some f l Cons show ?thesis
        by (simp add: bufferPartialTxnOp_def Let_def)
    next
      case df: (Some fa)
      with sameButFlags_deref [OF assms(1), of front] obtain fb where
        fb: "deref b front = Some fb" and e: "unflag fa = unflag fb"
        by (auto simp: option_rel_Some1)
      from df fb unflag_eq_fields(6) [OF e] Some f l Cons pm
        sameButFlags_partial_update [OF assms(1)]
      show ?thesis by (simp add: bufferPartialTxnOp_def Let_def)
    qed
  qed
qed

lemma sameButFlags_clearOnAbort:
  assumes "sameButFlags a b" and "unflag x = unflag y"
  shows "rel_sum (=) sameButFlags (clearOnAbort x a) (clearOnAbort y b)"
proof -
  have pm: "partialTxnOps b = partialTxnOps a" using assms(1) by (simp add: sameButFlags_def)
  from unflag_eq_fields [OF assms(2)] pm assms(1) sameButFlags_partial_update [OF assms(1)]
  show ?thesis by (simp add: clearOnAbort_def split: option.splits)
qed

lemma sameButFlags_those:
  assumes "sameButFlags a b"
  shows "rel_option (\<lambda>xs ys. map unflag xs = map unflag ys)
           (those (map (deref a) ps)) (those (map (deref b) ps))"
proof (induction ps)
  case Nil
  show ?case by simp
next
  case (Cons p ps)
  from sameButFlags_deref [OF assms, of p] Cons show ?case
    by (cases "deref a p"; cases "deref b p";
        cases "those (map (deref a) ps)"; cases "those (map (deref b) ps)") simp_all
qed

lemma sameButFlags_materializeTransaction:
  assumes "sameButFlags a b" and "unflag x = unflag y" and "ignoresCappedFlag env"
  shows "rel_sum (=) sameButFlags
           (materializeTransaction env x sid a) (materializeTransaction env y sid b)"
proof -
  note l = sameButFlags_partialTxnList [OF assms(1), of sid]
  have pm: "partialTxnOps b = partialTxnOps a" using assms(1) by (simp add: sameButFlags_def)
  note s = sameButFlags_partial_update [OF assms(1), of "(partialTxnOps a)(sid \<mapsto> [])"]
  show ?thesis
  proof (cases "those (map (deref a) (partialTxnList a sid))")
    case None
    with sameButFlags_those [OF assms(1), of "partialTxnList a sid"] l show ?thesis
      by (simp add: materializeTransaction_def)
  next
    case (Some xs)
    with sameButFlags_those [OF assms(1), of "partialTxnList a sid"] obtain ys where
      ys: "those (map (deref b) (partialTxnList a sid)) = Some ys"
      and e: "map unflag xs = map unflag ys"
      by (auto simp: option_rel_Some1)
    from Some ys l pm ignoresCappedFlag_read [OF assms(3,2) e]
      sameButFlags_emplaceAndAddDerivedOps [OF s]
    show ?thesis by (simp add: materializeTransaction_def)
  qed
qed

lemma sameButFlags_routeOp:
  assumes R: "sameButFlags a b" and xy: "unflag x = unflag y" and ig: "ignoresCappedFlag env"
  shows "rel_sum (=) sameButFlags (routeOp env opts p x a) (routeOp env opts p y b)"
proof (cases "isPartialTransaction x \<or> (shouldPrepare x \<and> mode opts = kInitialSync)")
  case True
  with unflag_eq_fields [OF xy] sameButFlags_bufferPartialTxnOp [OF R xy, of p] show ?thesis
    by (simp add: routeOp_def)
next
  case nb: False
  note f = unflag_eq_fields [OF xy]
  from nb f have nb': "\<not> (isPartialTransaction y \<or> (shouldPrepare y \<and> mode opts = kInitialSync))"
    by simp
  show ?thesis
  proof (cases "clearOnAbort x a")
    case (Inl e)
    with sameButFlags_clearOnAbort [OF R xy] have "clearOnAbort y b = Inl e"
      by (cases "clearOnAbort y b") simp_all
    with Inl nb' show ?thesis unfolding routeOp_def f by (simp only: if_False sum.case rel_sum.intros rel_sum_simps)
  next
    case (Inr a1)
    with sameButFlags_clearOnAbort [OF R xy] obtain b1 where
      cb: "clearOnAbort y b = Inr b1" and R1: "sameButFlags a1 b1"
      by (cases "clearOnAbort y b") simp_all
    let ?h = "ucast (stringMapHash env (getNss x)) :: 32 word"
    let ?pa = "if isCrudOpType (getOpType x) then processCrudOp env p x ?h a1 else (?h, a1)"
    let ?pb = "if isCrudOpType (getOpType y) then processCrudOp env p y ?h b1 else (?h, b1)"
    obtain h1 a2 where pa: "?pa = (h1, a2)" by fastforce
    obtain h2 b2 where pb: "?pb = (h2, b2)" by fastforce
    have "h2 = h1 \<and> sameButFlags a2 b2"
      using sameButFlags_processCrudOp [OF R1 xy, of env p ?h] pa pb R1 f(1)
      by (auto split: if_splits)
    then have h: "h2 = h1" and R2: "sameButFlags a2 b2" by simp_all
    have ra: "routeOp env opts p x a =
        (case deref a2 p of
           None \<Rightarrow> Inl DanglingPointer
         | Some op' \<Rightarrow>
             if isTerminalApplyOps op'
             then (case getSessionId op' of
                     Some sid \<Rightarrow>
                       if getTxnNumber op' \<noteq> None
                       then materializeTransaction env op' sid a2
                       else if getPrevWriteOpTimeInTransaction op' \<noteq> None
                       then Inl InvariantFailure
                       else emplaceAndAddDerivedOps env (extractOperations env op') a2
                   | None \<Rightarrow>
                       if getPrevWriteOpTimeInTransaction op' \<noteq> None
                       then Inl InvariantFailure
                       else emplaceAndAddDerivedOps env (extractOperations env op') a2)
             else if isPreparedCommit op' \<and> mode opts = kInitialSync
             then (case getSessionId op' of
                     None \<Rightarrow> Inl EmptyOptional
                   | Some sid \<Rightarrow> materializeTransaction env op' sid a2)
             else addToWriterVector p h1 a2)"
      using nb Inr pa unfolding routeOp_def by (simp only: if_False sum.case prod.case)
    have rb: "routeOp env opts p y b =
        (case deref b2 p of
           None \<Rightarrow> Inl DanglingPointer
         | Some op' \<Rightarrow>
             if isTerminalApplyOps op'
             then (case getSessionId op' of
                     Some sid \<Rightarrow>
                       if getTxnNumber op' \<noteq> None
                       then materializeTransaction env op' sid b2
                       else if getPrevWriteOpTimeInTransaction op' \<noteq> None
                       then Inl InvariantFailure
                       else emplaceAndAddDerivedOps env (extractOperations env op') b2
                   | None \<Rightarrow>
                       if getPrevWriteOpTimeInTransaction op' \<noteq> None
                       then Inl InvariantFailure
                       else emplaceAndAddDerivedOps env (extractOperations env op') b2)
             else if isPreparedCommit op' \<and> mode opts = kInitialSync
             then (case getSessionId op' of
                     None \<Rightarrow> Inl EmptyOptional
                   | Some sid \<Rightarrow> materializeTransaction env op' sid b2)
             else addToWriterVector p h1 b2)"
      using nb' cb pb [unfolded h] f(2) unfolding routeOp_def
      by (simp only: if_False sum.case prod.case)
    show ?thesis
    proof (cases "deref a2 p")
      case None
      with sameButFlags_deref [OF R2, of p] have "deref b2 p = None" by simp
      with None show ?thesis unfolding ra rb by simp
    next
      case (Some x')
      with sameButFlags_deref [OF R2, of p] obtain y' where
        y': "deref b2 p = Some y'" and e: "unflag x' = unflag y'"
        by (auto simp: option_rel_Some1)
      note g = unflag_eq_fields [OF e]
      note m = sameButFlags_materializeTransaction [OF R2 e ig]
      note ex = ignoresCappedFlag_extract [OF ig e]
      note em = sameButFlags_emplaceAndAddDerivedOps [OF R2, of env "extractOperations env y'"]
      note aw = sameButFlags_addToWriterVector [OF R2, of p h1]
      show ?thesis
        unfolding ra rb Some y' option.case
        using g m ex em aw by (auto split: option.splits)
    qed
  qed
qed

lemma sameButFlags_deriveOp:
  assumes R: "sameButFlags a b" and ig: "ignoresCappedFlag env"
  shows "rel_sum (=) sameButFlags (deriveOp env opts tr p a) (deriveOp env opts tr p b)"
proof (cases "deref a p")
  case None
  with sameButFlags_deref [OF R, of p] show ?thesis by (simp add: deriveOp_def)
next
  case (Some x)
  with sameButFlags_deref [OF R, of p] obtain y where
    y: "deref b p = Some y" and xy: "unflag x = unflag y"
    by (auto simp: option_rel_Some1)
  note f = unflag_eq_fields [OF xy]
  show ?thesis
  proof (cases "opTime_le (getOpTime x) (beginApplyingOpTime opts)")
    case True
    with Some y f R show ?thesis by (simp add: deriveOp_def)
  next
    case False
    show ?thesis
    proof (cases "trackSession env tr x a")
      case (Inl e)
      with sameButFlags_trackSession [OF R xy ig, of tr] have "trackSession env tr y b = Inl e"
        by (cases "trackSession env tr y b") simp_all
      with Inl Some y f False show ?thesis by (simp add: deriveOp_def)
    next
      case (Inr a1)
      with sameButFlags_trackSession [OF R xy ig, of tr] obtain b1 where
        tb: "trackSession env tr y b = Inr b1" and R1: "sameButFlags a1 b1"
        by (cases "trackSession env tr y b") simp_all
      from sameButFlags_routeOp [OF R1 xy ig, of opts p] Inr tb Some y f False
      show ?thesis by (simp add: deriveOp_def)
    qed
  qed
qed

lemma sameButFlags_pass:
  assumes R: "sameButFlags a b" and ig: "ignoresCappedFlag env"
  shows "rel_sum (=) sameButFlags
           (deriveOpsAndFillWriterVectors env opts src tr a)
           (deriveOpsAndFillWriterVectors env opts src tr b)"
proof -
  have p: "srcPtrs src b = srcPtrs src a"
    using R sameButFlags_length [OF R] by (simp add: srcPtrs_def sameButFlags_def split: option.splits)
  have "sameButFlags (a\<lparr>partialTxnOps := Map.empty, collPropertiesCache := Map.empty\<rparr>)
          (b\<lparr>partialTxnOps := Map.empty, collPropertiesCache := Map.empty\<rparr>)"
    using R by (simp add: sameButFlags_def)
  from forEachOp_sim [of sameButFlags "deriveOp env opts tr" "deriveOp env opts tr", OF _ this]
  show ?thesis
    by (simp add: deriveOpsAndFillWriterVectors_def p sameButFlags_deriveOp [OF _ ig])
qed

lemma sameButFlags_fillWriterVectors:
  assumes flags: "map unflag batch' = map unflag batch" and ig: "ignoresCappedFlag env"
  shows "rel_sum (=) sameButFlags
           (fillWriterVectors env opts batch wvs dops)
           (fillWriterVectors env opts batch' wvs dops)"
proof -
  let ?a = "initialFillState env batch wvs dops"
  let ?b = "initialFillState env batch' wvs dops"
  have R0: "sameButFlags ?a ?b" using flags by (simp add: sameButFlags_def initialFillState_def)
  note one = sameButFlags_pass [OF R0 ig, of opts None True]
  show ?thesis
  proof (cases "deriveOpsAndFillWriterVectors env opts None True ?a")
    case (Inl e)
    with one have "deriveOpsAndFillWriterVectors env opts None True ?b = Inl e"
      by (cases "deriveOpsAndFillWriterVectors env opts None True ?b") simp_all
    with Inl show ?thesis by (simp add: fillWriterVectors_def)
  next
    case (Inr a1)
    with one obtain b1 where
      pb: "deriveOpsAndFillWriterVectors env opts None True ?b = Inr b1"
      and R1: "sameButFlags a1 b1"
      by (cases "deriveOpsAndFillWriterVectors env opts None True ?b") simp_all
    have t: "sessionUpdateTracker b1 = sessionUpdateTracker a1"
      and d: "derivedOps b1 = derivedOps a1"
      using R1 by (simp_all add: sameButFlags_def)
    let ?w = "flushAll env (sessionUpdateTracker a1)"
    have R2: "sameButFlags (a1\<lparr>derivedOps := derivedOps a1 @ [?w]\<rparr>)
                (b1\<lparr>derivedOps := derivedOps a1 @ [?w]\<rparr>)"
      using R1 by (simp add: sameButFlags_def)
    from sameButFlags_pass [OF R2 ig, of opts "Some (length (derivedOps a1))" False]
      Inr pb t d R1
    show ?thesis by (simp add: fillWriterVectors_def Let_def)
  qed
qed

text \<open>
  C2. Two runs of \<open>fillWriterVectors\<close> with the same options, the same writer vectors and
  derived-op store passed in, and the same engine, hash functions, session tracker and
  oplog readers. The second run may see another catalog, as long as every namespace has
  the same collection properties in it; and it may get the batch with other
  \<open>isForCappedCollection\<close> flags (the flags are what a run writes into the batch, so this
  is the case when the batch of the first run is used again), as long as the session
  tracker and the oplog readers do not look at that flag. Then the second run ends in the
  same fault as the first, or both return, with the same writer vectors (the same pointers
  in the same vectors in the same order), the same \<open>derivedOps\<close> and the same batch up to
  the flags.
\<close>

theorem routing_determinism:
  assumes "\<forall>ns. getCollectionPropertiesImpl (env\<lparr>getDb := g\<rparr>) ns = getCollectionPropertiesImpl env ns"
    and "map unflag batch' = map unflag batch"
    and "batch' = batch \<or> ignoresCappedFlag env"
  shows "case fillWriterVectors env opts batch wvs dops of
           Inl fault \<Rightarrow> fillWriterVectors (env\<lparr>getDb := g\<rparr>) opts batch' wvs dops = Inl fault
         | Inr st \<Rightarrow>
             (\<exists>st'. fillWriterVectors (env\<lparr>getDb := g\<rparr>) opts batch' wvs dops = Inr st' \<and>
                    writerVectors st' = writerVectors st \<and> derivedOps st' = derivedOps st \<and>
                    map unflag (ops st') = map unflag (ops st))"
proof (cases "batch' = batch")
  case True
  then show ?thesis
    unfolding fillWriterVectors_catalog [OF assms(1)]
    by (cases "fillWriterVectors env opts batch wvs dops") simp_all
next
  case False
  with assms(3) have "ignoresCappedFlag env" by simp
  from sameButFlags_fillWriterVectors [OF assms(2) this, of opts wvs dops] show ?thesis
    unfolding fillWriterVectors_catalog [OF assms(1)]
    by (cases "fillWriterVectors env opts batch wvs dops";
        cases "fillWriterVectors env opts batch' wvs dops")
      (simp_all add: sameButFlags_def)
qed

lemma example_ignoresCappedFlag: "ignoresCappedFlag exampleEnv"
  by (simp add: ignoresCappedFlag_def exampleEnv_def exampleOp_def o_def split: option.splits)

theorem routing_determinism_witness:
  "otherCatalog \<noteq> getDb exampleEnv \<and>
   (\<forall>ns. getCollectionPropertiesImpl (exampleEnv\<lparr>getDb := otherCatalog\<rparr>) ns =
         getCollectionPropertiesImpl exampleEnv ns) \<and>
   ignoresCappedFlag exampleEnv \<and>
   ops exampleResult \<noteq> exampleBatch \<and>
   map unflag (ops exampleResult) = map unflag exampleBatch \<and>
   fillWriterVectors exampleEnv exampleOptions exampleBatch (replicate 2 []) [] = Inr exampleResult \<and>
   map_sum id writerVectors
     (fillWriterVectors (exampleEnv\<lparr>getDb := otherCatalog\<rparr>) exampleOptions (ops exampleResult)
        (replicate 2 []) []) = Inr [[InputOp 3], [InputOp 1, InputOp 2]] \<and>
   map unflag (map (\<lambda>op. op\<lparr>isForCappedCollection := True\<rparr>) txnBatch) = map unflag txnBatch \<and>
   fillWriterVectors exampleEnv exampleOptions txnBatch (replicate 2 []) [] = Inr txnFilled \<and>
   map_sum id (\<lambda>st. (writerVectors st, derivedOps st))
     (fillWriterVectors (exampleEnv\<lparr>getDb := otherCatalog\<rparr>) exampleOptions
        (map (\<lambda>op. op\<lparr>isForCappedCollection := True\<rparr>) txnBatch) (replicate 2 []) []) =
     Inr (writerVectors txnFilled, derivedOps txnFilled)"
proof -
  have ne: "otherCatalog \<noteq> getDb exampleEnv"
  proof
    assume "otherCatalog = getDb exampleEnv"
    then have "otherCatalog ''config'' = getDb exampleEnv ''config''" by simp
    then show False by (simp add: otherCatalog_def exampleEnv_def)
  qed
  have same: "\<forall>ns. getCollectionPropertiesImpl (exampleEnv\<lparr>getDb := otherCatalog\<rparr>) ns =
         getCollectionPropertiesImpl exampleEnv ns"
    by (simp add: getCollectionPropertiesImpl_def otherCatalog_def exampleEnv_def)
  have d: "ops exampleResult \<noteq> exampleBatch"
    by (simp add: exampleResult_def exampleBatch_def exampleOp_def)
  have f1: "map unflag (ops exampleResult) = map unflag exampleBatch"
    by (simp add: exampleResult_def exampleBatch_def)
  have f2: "map unflag (map (\<lambda>op. op\<lparr>isForCappedCollection := True\<rparr>) txnBatch) = map unflag txnBatch"
    by (simp add: o_def)
  from routing_determinism [OF same f1 disjI2 [OF example_ignoresCappedFlag],
      of exampleOptions "replicate 2 []" "[]"] example_run
  have a: "map_sum id writerVectors
     (fillWriterVectors (exampleEnv\<lparr>getDb := otherCatalog\<rparr>) exampleOptions (ops exampleResult)
        (replicate 2 []) []) = Inr [[InputOp 3], [InputOp 1, InputOp 2]]"
    by (auto simp: exampleResult_def)
  from routing_determinism [OF same f2 disjI2 [OF example_ignoresCappedFlag],
      of exampleOptions "replicate 2 []" "[]"] txn_run
  have b: "map_sum id (\<lambda>st. (writerVectors st, derivedOps st))
     (fillWriterVectors (exampleEnv\<lparr>getDb := otherCatalog\<rparr>) exampleOptions
        (map (\<lambda>op. op\<lparr>isForCappedCollection := True\<rparr>) txnBatch) (replicate 2 []) []) =
     Inr (writerVectors txnFilled, derivedOps txnFilled)"
    by auto
  from ne same example_ignoresCappedFlag d f1 example_run a f2 txn_run b show ?thesis
    by simp
qed


section \<open>Properties of the appliers\<close>

subsection \<open>\<open>syncApply\<close> and a namespace that is not found\<close>

lemma writeConflictRetry_no_conflict:
  assumes "f s = (r, s')" and "\<forall>e. r = Throws e \<longrightarrow> code e \<noteq> WriteConflict"
  shows "writeConflictRetry f s = Some (r, s')"
  using assms by (subst writeConflictRetry.simps) (auto split: Outcome.splits)

lemma finishApply_Some: "finishApply (Some (r, s)) = Some (r, s)"
  by (cases r) (simp_all add: finishApply_def finishAndLogApply_def)

lemma crud_not_noop: "isCrudOpType t \<Longrightarrow> t \<noteq> kNoop"
  by (auto simp: isCrudOpType_def)




subsection \<open>The errors that the worker skips\<close>

lemma workerAt_applyLoop:
  assumes "workerAt aenv opts xs s0 it s"
  shows "applyLoop aenv opts xs 0 s0 = applyLoop aenv opts xs it s"
  using assms
proof (induction rule: workerAt.induct)
  case first
  show ?case by simp
next
  case (turn it s it' s')
  have "applyLoop aenv opts xs it s = applyLoop aenv opts xs it' s'"
    using turn.hyps(2,3) by (subst applyLoop.simps) simp
  with turn.IH show ?case by simp
qed

lemma workerAt_multiSyncApply:
  assumes "workerAt aenv opts (stableSortByNamespace ops') (workerContext s) it si"
  shows "multiSyncApply aenv opts ops' mk s =
           workerResult aenv mk s (applyLoop aenv opts (stableSortByNamespace ops') it si)"
  using workerAt_applyLoop [OF assms] by (simp add: multiSyncApply_def)

lemma applyTurn_not_OK:
  assumes "groupAndApplyInserts aenv (storage s) xs it (mode opts) = (None, w')"
    and "syncApply aenv (xs ! it) (mode opts) (s\<lparr>storage := w'\<rparr>) = Some (outcome, s')"
    and "\<forall>status. outcome = Returns status \<longrightarrow> \<not> isOK status"
  shows "applyTurn aenv opts xs it s =
           Some (case outcome of
                   Returns status \<Rightarrow>
                     if code status = UpdateOperationFailed \<and> mode opts = kInitialSync
                     then Continue (Suc it) s' else Leave (Inr status) s'
                 | Throws e \<Rightarrow>
                     if code e = NamespaceNotFound \<and> isCrudOpType (getOpType (xs ! it)) \<and>
                        allowNamespaceNotFoundErrorsOnCrudOps opts
                     then Continue (Suc it) s' else Leave (Inr e) s'
                 | Aborts a \<Rightarrow> Leave (Inl a) s')"
  using assms by (auto simp: applyTurn_def Let_def split: Outcome.splits)

lemma applyLoop_Leave:
  assumes "it < length xs" and "applyTurn aenv opts xs it s = Some (Leave r s')"
  shows "applyLoop aenv opts xs it s =
           Some (case r of Inl a \<Rightarrow> Inl a | Inr status \<Rightarrow> Inr (ReturnedEarly status), s')"
  using assms by (subst applyLoop.simps) (simp split: sum.splits)

text \<open>
  C7. \<open>multiSyncApply\<close> is called on a worker vector in the state \<open>s\<close>, with the caller's
  \<open>workerMultikeyPathInfo\<close>. Its loop has come to the entry at the position \<open>it\<close> of the
  sorted vector, the insert grouper forms no group there, and \<open>syncApply\<close> on that entry
  comes back with something other than an OK status. When the status returned is
  \<open>UpdateOperationFailed\<close> and the mode is initial sync, or when the exception thrown is
  \<open>NamespaceNotFound\<close>, the entry is a CRUD entry and
  \<open>allowNamespaceNotFoundErrorsOnCrudOps\<close> is set, the loop comes to the next entry, in the
  state \<open>syncApply\<close> left, and \<open>multiSyncApply\<close> returns what the loop gives from there. In
  every other case \<open>multiSyncApply\<close> returns at once: that status and the caller's
  \<open>workerMultikeyPathInfo\<close> as it was, in the state \<open>syncApply\<close> left with the caller's
  context restored; a failed invariant of \<open>syncApply\<close> ends it as a fault.
\<close>

theorem worker_error_suppression:
  assumes "workerAt aenv opts (stableSortByNamespace ops') (workerContext s) it si"
    and "it < length (stableSortByNamespace ops')"
    and "groupAndApplyInserts aenv (storage si) (stableSortByNamespace ops') it (mode opts)
           = (None, w')"
    and "syncApply aenv (stableSortByNamespace ops' ! it) (mode opts) (si\<lparr>storage := w'\<rparr>)
           = Some (outcome, s')"
    and "\<forall>status. outcome = Returns status \<longrightarrow> \<not> isOK status"
  shows "case outcome of
           Returns status \<Rightarrow>
             if code status = UpdateOperationFailed \<and> mode opts = kInitialSync
             then workerAt aenv opts (stableSortByNamespace ops') (workerContext s) (Suc it) s' \<and>
                  multiSyncApply aenv opts ops' workerMultikeyPathInfo s =
                    workerResult aenv workerMultikeyPathInfo s
                      (applyLoop aenv opts (stableSortByNamespace ops') (Suc it) s')
             else multiSyncApply aenv opts ops' workerMultikeyPathInfo s =
                    Some (Inr (status, workerMultikeyPathInfo), restoreContext s s')
         | Throws e \<Rightarrow>
             if code e = NamespaceNotFound \<and>
                isCrudOpType (getOpType (stableSortByNamespace ops' ! it)) \<and>
                allowNamespaceNotFoundErrorsOnCrudOps opts
             then workerAt aenv opts (stableSortByNamespace ops') (workerContext s) (Suc it) s' \<and>
                  multiSyncApply aenv opts ops' workerMultikeyPathInfo s =
                    workerResult aenv workerMultikeyPathInfo s
                      (applyLoop aenv opts (stableSortByNamespace ops') (Suc it) s')
             else multiSyncApply aenv opts ops' workerMultikeyPathInfo s =
                    Some (Inr (e, workerMultikeyPathInfo), restoreContext s s')
         | Aborts a \<Rightarrow>
             multiSyncApply aenv opts ops' workerMultikeyPathInfo s =
               Some (Inl a, restoreContext s s')"
proof -
  let ?xs = "stableSortByNamespace ops'"
  note t = applyTurn_not_OK [OF assms(3,4,5)]
  have skip: "workerAt aenv opts ?xs (workerContext s) (Suc it) s' \<and>
      multiSyncApply aenv opts ops' workerMultikeyPathInfo s =
        workerResult aenv workerMultikeyPathInfo s (applyLoop aenv opts ?xs (Suc it) s')"
    if "applyTurn aenv opts ?xs it si = Some (Continue (Suc it) s')"
  proof -
    have "workerAt aenv opts ?xs (workerContext s) (Suc it) s'"
      using workerAt.turn [OF assms(1,2) that] .
    then show ?thesis by (simp add: workerAt_multiSyncApply)
  qed
  have stop: "multiSyncApply aenv opts ops' workerMultikeyPathInfo s =
      workerResult aenv workerMultikeyPathInfo s
        (Some (case r of Inl a \<Rightarrow> Inl a | Inr status \<Rightarrow> Inr (ReturnedEarly status), s'))"
    if "applyTurn aenv opts ?xs it si = Some (Leave r s')" for r
    using workerAt_multiSyncApply [OF assms(1)] applyLoop_Leave [OF assms(2) that] by simp
  show ?thesis
  proof (cases outcome)
    case (Returns status)
    show ?thesis
    proof (cases "code status = UpdateOperationFailed \<and> mode opts = kInitialSync")
      case True
      with t Returns skip show ?thesis by simp
    next
      case False
      with t Returns have "applyTurn aenv opts ?xs it si = Some (Leave (Inr status) s')"
        by auto
      from stop [OF this]
      have "multiSyncApply aenv opts ops' workerMultikeyPathInfo s =
          Some (Inr (status, workerMultikeyPathInfo), restoreContext s s')"
        by (simp add: workerResult_def)
      then show ?thesis unfolding Returns Outcome.case if_not_P [OF False] .
    qed
  next
    case (Throws e)
    show ?thesis
    proof (cases "code e = NamespaceNotFound \<and> isCrudOpType (getOpType (?xs ! it)) \<and>
        allowNamespaceNotFoundErrorsOnCrudOps opts")
      case True
      with t Throws skip show ?thesis by simp
    next
      case False
      with t Throws have "applyTurn aenv opts ?xs it si = Some (Leave (Inr e) s')"
        by auto
      from stop [OF this]
      have "multiSyncApply aenv opts ops' workerMultikeyPathInfo s =
          Some (Inr (e, workerMultikeyPathInfo), restoreContext s s')"
        by (simp add: workerResult_def)
      then show ?thesis unfolding Throws Outcome.case if_not_P [OF False] .
    qed
  next
    case (Aborts a)
    with t have "applyTurn aenv opts ?xs it si = Some (Leave (Inl a) s')" by simp
    from stop [OF this] Aborts show ?thesis by (simp add: workerResult_def)
  qed
qed

lemma syncApply_crud_no_conflict:
  assumes "isCrudOpType (getOpType op)" and "crudThunk aenv op m s = (r, s')"
    and "\<forall>e. r = Throws e \<longrightarrow> code e \<noteq> WriteConflict"
    and "\<not> writesAreReplicated s" and "documentValidationDisabled s"
  shows "syncApply aenv op m s = Some (r, s')"
proof -
  have "writeConflictRetry (crudThunk aenv op m) s = Some (r, s')"
    using writeConflictRetry_no_conflict [of "crudThunk aenv op m" s r s'] assms(2,3) by blast
  then show ?thesis
    using assms(1,4,5) crud_not_noop [OF assms(1)]
    by (simp add: syncApply_def finishApply_Some Let_def)
qed

lemmas apply_defs = crudThunk_def crudTryBlock_def applyOp_def exampleApplyEnv_def
  getNsOrUUID_def nss_db_def fixLockModeForSystemDotViewsChanges_def isSystemDotViews_def
  exampleApplyState_def statusOK_def isOK_def exampleOp_def isCrudOpType_def

lemma workerVector_update:
  "syncApply exampleApplyEnv (workerVector ! 0) kInitialSync exampleApplyState =
     Some (Returns updateFailed, exampleApplyState)"
  by (rule syncApply_crud_no_conflict)
    (simp_all add: workerVector_def apply_defs updateFailed_def Let_def)

lemma workerVector_delete:
  "syncApply exampleApplyEnv (workerVector ! 1) kInitialSync exampleApplyState =
     Some (Returns statusOK, exampleApplyState\<lparr>opsAppliedStats := 1\<rparr>)"
  by (rule syncApply_crud_no_conflict)
    (simp_all add: workerVector_def apply_defs Let_def)

lemma workerVector_sorted: "stableSortByNamespace workerVector = workerVector"
  by (simp add: stableSortByNamespace_def std_stable_sort_def nssComparator_def
      workerVector_def exampleOp_def)

lemma workerContext_callerState: "workerContext callerState = exampleApplyState"
  by (simp add: workerContext_def callerState_def exampleApplyState_def)

lemma failingVector_sorted:
  "stableSortByNamespace failingVector =
     [exampleOp kUpdate ''db.c'' 101 3, exampleOp kDelete ''db.c'' 102 3, missingDbInsert]"
  by (simp add: stableSortByNamespace_def std_stable_sort_def nssComparator_def
      failingVector_def missingDbInsert_def exampleOp_def)

lemma missingDb_syncApply_any:
  assumes "m \<noteq> kRecovering" and "\<not> writesAreReplicated s" and "documentValidationDisabled s"
  shows "syncApply exampleApplyEnv missingDbInsert m s =
     Some (Throws (addContext ''Failed to apply operation: other.c'' missingDbException), s)"
  using assms
  by (intro syncApply_crud_no_conflict)
    (simp_all add: missingDbInsert_def missingDbException_def apply_defs addContext_def Let_def)

lemma failingVector_reached:
  assumes "mode opts = kInitialSync"
  shows "workerAt exampleApplyEnv opts (stableSortByNamespace failingVector)
     (workerContext callerState) 2 (exampleApplyState\<lparr>opsAppliedStats := 1\<rparr>)"
proof -
  let ?xs = "stableSortByNamespace failingVector"
  have g: "groupAndApplyInserts exampleApplyEnv (storage s) ?xs it kInitialSync
             = (None, storage s)" for s :: "(string \<times> nat) list ApplyState" and it
    by (simp add: exampleApplyEnv_def)
  have u: "syncApply exampleApplyEnv (?xs ! 0) kInitialSync exampleApplyState =
     Some (Returns updateFailed, exampleApplyState)"
    using workerVector_update by (simp add: failingVector_sorted workerVector_def)
  have d: "syncApply exampleApplyEnv (?xs ! Suc 0) kInitialSync exampleApplyState =
     Some (Returns statusOK, exampleApplyState\<lparr>opsAppliedStats := 1\<rparr>)"
    using workerVector_delete by (simp add: failingVector_sorted workerVector_def)
  have t0: "applyTurn exampleApplyEnv opts ?xs 0 exampleApplyState =
      Some (Continue (Suc 0) exampleApplyState)"
    by (simp add: applyTurn_def assms g u isOK_def updateFailed_def)
  have t1: "applyTurn exampleApplyEnv opts ?xs (Suc 0) exampleApplyState =
      Some (Continue (Suc (Suc 0)) (exampleApplyState\<lparr>opsAppliedStats := 1\<rparr>))"
    by (simp add: applyTurn_def assms g d isOK_def statusOK_def)
  have l: "0 < length ?xs" "Suc 0 < length ?xs" by (simp_all add: failingVector_sorted)
  have "workerAt exampleApplyEnv opts ?xs exampleApplyState 0 exampleApplyState"
    by (rule workerAt.first)
  from workerAt.turn [OF workerAt.turn [OF this l(1) t0] l(2) t1] show ?thesis
    by (simp add: workerContext_callerState numeral_2_eq_2)
qed

text \<open>
  The worker on a vector that sorts to an update of a missing document, its delete, and an
  insert into a database that does not exist. In initial sync it skips the failed update;
  it comes to the insert, where it stops and returns the exception as a status, with the
  caller's context restored; when \<open>NamespaceNotFound\<close> is allowed on CRUD entries it skips
  the insert too and returns OK.
\<close>

theorem worker_error_suppression_witness:
  "workerAt exampleApplyEnv initialSyncOptions (stableSortByNamespace failingVector)
     (workerContext callerState) 0 exampleApplyState \<and>
   (0::nat) < length (stableSortByNamespace failingVector) \<and>
   groupAndApplyInserts exampleApplyEnv (storage exampleApplyState)
     (stableSortByNamespace failingVector) 0 (mode initialSyncOptions) = (None, []) \<and>
   syncApply exampleApplyEnv (stableSortByNamespace failingVector ! 0) (mode initialSyncOptions)
     (exampleApplyState\<lparr>storage := []\<rparr>) = Some (Returns updateFailed, exampleApplyState) \<and>
   \<not> isOK updateFailed \<and>
   workerAt exampleApplyEnv initialSyncOptions (stableSortByNamespace failingVector)
     (workerContext callerState) (Suc 0) exampleApplyState \<and>
   workerAt exampleApplyEnv initialSyncOptions (stableSortByNamespace failingVector)
     (workerContext callerState) 2 (exampleApplyState\<lparr>opsAppliedStats := 1\<rparr>) \<and>
   (2::nat) < length (stableSortByNamespace failingVector) \<and>
   groupAndApplyInserts exampleApplyEnv (storage (exampleApplyState\<lparr>opsAppliedStats := 1\<rparr>))
     (stableSortByNamespace failingVector) 2 (mode initialSyncOptions) = (None, []) \<and>
   syncApply exampleApplyEnv (stableSortByNamespace failingVector ! 2) (mode initialSyncOptions)
     (exampleApplyState\<lparr>opsAppliedStats := 1, storage := []\<rparr>) =
     Some (Throws (addContext ''Failed to apply operation: other.c'' missingDbException),
           exampleApplyState\<lparr>opsAppliedStats := 1\<rparr>) \<and>
   multiSyncApply exampleApplyEnv initialSyncOptions failingVector [] callerState =
     Some (Inr (addContext ''Failed to apply operation: other.c'' missingDbException, []),
           callerState\<lparr>opsAppliedStats := 1\<rparr>) \<and>
   workerAt exampleApplyEnv lenientOptions (stableSortByNamespace failingVector)
     (workerContext callerState) 2 (exampleApplyState\<lparr>opsAppliedStats := 1\<rparr>) \<and>
   syncApply exampleApplyEnv (stableSortByNamespace failingVector ! 2) (mode lenientOptions)
     (exampleApplyState\<lparr>opsAppliedStats := 1, storage := []\<rparr>) =
     Some (Throws (addContext ''Failed to apply operation: other.c'' missingDbException),
           exampleApplyState\<lparr>opsAppliedStats := 1\<rparr>) \<and>
   workerAt exampleApplyEnv lenientOptions (stableSortByNamespace failingVector)
     (workerContext callerState) (Suc 2) (exampleApplyState\<lparr>opsAppliedStats := 1\<rparr>) \<and>
   multiSyncApply exampleApplyEnv lenientOptions failingVector [] callerState =
     Some (Inr (statusOK, []), callerState\<lparr>opsAppliedStats := 1\<rparr>)"
proof -
  let ?xs = "stableSortByNamespace failingVector"
  let ?s1 = "exampleApplyState\<lparr>opsAppliedStats := 1\<rparr>"
  let ?exc = "addContext ''Failed to apply operation: other.c'' missingDbException"
  have m: "mode initialSyncOptions = kInitialSync" "mode lenientOptions = kInitialSync"
    "\<not> allowNamespaceNotFoundErrorsOnCrudOps initialSyncOptions"
    "allowNamespaceNotFoundErrorsOnCrudOps lenientOptions"
    by (simp_all add: initialSyncOptions_def lenientOptions_def exampleOptions_def)
  have w0: "workerAt exampleApplyEnv initialSyncOptions ?xs (workerContext callerState) 0
      exampleApplyState"
    using workerAt.first [of exampleApplyEnv initialSyncOptions ?xs exampleApplyState]
    by (simp add: workerContext_callerState)
  note w2 = failingVector_reached [OF m(1)] and w2' = failingVector_reached [OF m(2)]
  have l: "(0::nat) < length ?xs" "(2::nat) < length ?xs"
    by (simp_all add: failingVector_sorted)
  have g: "groupAndApplyInserts exampleApplyEnv (storage exampleApplyState) ?xs 0
      (mode initialSyncOptions) = (None, [])"
    "groupAndApplyInserts exampleApplyEnv (storage ?s1) ?xs 2 (mode initialSyncOptions)
      = (None, [])"
    "groupAndApplyInserts exampleApplyEnv (storage ?s1) ?xs 2 (mode lenientOptions)
      = (None, [])"
    by (simp_all add: exampleApplyEnv_def exampleApplyState_def)
  have st: "exampleApplyState\<lparr>storage := []\<rparr> = exampleApplyState"
    "?s1\<lparr>storage := []\<rparr> = ?s1"
    by (simp_all add: exampleApplyState_def)
  have s0: "syncApply exampleApplyEnv (?xs ! 0) (mode initialSyncOptions)
      (exampleApplyState\<lparr>storage := []\<rparr>) = Some (Returns updateFailed, exampleApplyState)"
    using workerVector_update by (simp add: st m failingVector_sorted workerVector_def)
  have x2: "?xs ! 2 = missingDbInsert" by (simp add: failingVector_sorted)
  have s2: "syncApply exampleApplyEnv (?xs ! 2) (mode initialSyncOptions) (?s1\<lparr>storage := []\<rparr>)
      = Some (Throws ?exc, ?s1)"
    "syncApply exampleApplyEnv (?xs ! 2) (mode lenientOptions) (?s1\<lparr>storage := []\<rparr>)
      = Some (Throws ?exc, ?s1)"
    unfolding x2 st m by (rule missingDb_syncApply_any; simp add: exampleApplyState_def)+
  have n: "\<not> isOK updateFailed" by (simp add: isOK_def updateFailed_def)
  have n0: "\<forall>status. Returns updateFailed = Returns status \<longrightarrow> \<not> isOK status"
    using n by simp
  have n2: "\<forall>status. Throws ?exc = Returns status \<longrightarrow> \<not> isOK status"
    by simp
  have c: "code ?exc = NamespaceNotFound" "isCrudOpType (getOpType (?xs ! 2))"
    by (simp_all add: x2 addContext_def missingDbException_def missingDbInsert_def exampleOp_def
        isCrudOpType_def)
  from worker_error_suppression [OF w0 l(1) g(1) s0 n0, of "[]"]
  have a: "workerAt exampleApplyEnv initialSyncOptions ?xs (workerContext callerState) (Suc 0)
      exampleApplyState"
    by (simp add: updateFailed_def m)
  from worker_error_suppression [OF w2 l(2) g(2) s2(1) n2, of "[]"]
  have b: "multiSyncApply exampleApplyEnv initialSyncOptions failingVector [] callerState =
      Some (Inr (?exc, []), callerState\<lparr>opsAppliedStats := 1\<rparr>)"
    by (simp add: m c restoreContext_def callerState_def)
  have e: "applyLoop exampleApplyEnv lenientOptions ?xs (Suc 2) ?s1 = Some (Inr RanToEnd, ?s1)"
    by (subst applyLoop.simps) (simp add: failingVector_sorted)
  have mk: "getMultikeyPathInfo exampleApplyEnv w = []" for w
    by (simp add: exampleApplyEnv_def)
  from worker_error_suppression [OF w2' l(2) g(3) s2(2) n2, of "[]"]
  have d: "workerAt exampleApplyEnv lenientOptions ?xs (workerContext callerState) (Suc 2) ?s1"
    and f0: "multiSyncApply exampleApplyEnv lenientOptions failingVector [] callerState =
      workerResult exampleApplyEnv [] callerState
        (applyLoop exampleApplyEnv lenientOptions ?xs (Suc 2) ?s1)"
    by (simp_all only: Outcome.case c m(4) simp_thms if_True)
  have f: "multiSyncApply exampleApplyEnv lenientOptions failingVector [] callerState =
      Some (Inr (statusOK, []), callerState\<lparr>opsAppliedStats := 1\<rparr>)"
    unfolding f0 e by (simp add: workerResult_def mk restoreContext_def callerState_def)
  from w0 l g(1,2) s0 n a w2 s2 b w2' d f show ?thesis
    by (simp add: exampleApplyState_def)
qed

subsection \<open>The stable sort by namespace\<close>

lemma mset_insertSorted: "mset (insertSorted cmp x ys) = add_mset x (mset ys)"
  by (induction ys) simp_all

lemma set_insertSorted: "set (insertSorted cmp x ys) = insert x (set ys)"
  by (induction ys) auto

lemma sorted_insertSorted:
  fixes f :: "'a \<Rightarrow> 'b::linorder"
  assumes "sorted (map f ys)"
  shows "sorted (map f (insertSorted (\<lambda>l r. f l < f r) x ys))"
  using assms
proof (induction ys)
  case Nil
  then show ?case by simp
next
  case (Cons y ys)
  show ?case
  proof (cases "f y < f x")
    case True
    with Cons show ?thesis by (auto simp: set_insertSorted)
  next
    case False
    with Cons.prems show ?thesis by auto
  qed
qed

lemma filter_insertSorted:
  fixes f :: "'a \<Rightarrow> 'b::linorder"
  shows "filter (\<lambda>y. f y = k) (insertSorted (\<lambda>l r. f l < f r) x ys) =
           (if f x = k then x # filter (\<lambda>y. f y = k) ys else filter (\<lambda>y. f y = k) ys)"
  by (induction ys) auto

lemma std_stable_sort_Cons:
  "std_stable_sort cmp (x # xs) = insertSorted cmp x (std_stable_sort cmp xs)"
  by (simp add: std_stable_sort_def)

lemma std_stable_sort_key:
  fixes f :: "'a \<Rightarrow> 'b::linorder"
  shows "sorted (map f (std_stable_sort (\<lambda>l r. f l < f r) xs))"
    and "mset (std_stable_sort (\<lambda>l r. f l < f r) xs) = mset xs"
    and "filter (\<lambda>y. f y = k) (std_stable_sort (\<lambda>l r. f l < f r) xs) = filter (\<lambda>y. f y = k) xs"
proof -
  show "sorted (map f (std_stable_sort (\<lambda>l r. f l < f r) xs))"
    by (induction xs) (simp_all add: std_stable_sort_Cons sorted_insertSorted, simp add: std_stable_sort_def)
  show "mset (std_stable_sort (\<lambda>l r. f l < f r) xs) = mset xs"
    by (induction xs) (simp_all add: std_stable_sort_Cons mset_insertSorted, simp add: std_stable_sort_def)
  show "filter (\<lambda>y. f y = k) (std_stable_sort (\<lambda>l r. f l < f r) xs) = filter (\<lambda>y. f y = k) xs"
    by (induction xs) (simp_all add: std_stable_sort_Cons filter_insertSorted, simp add: std_stable_sort_def)
qed

text \<open>
  C9. \<open>stableSortByNamespace\<close> sorts a worker vector by namespace, keeps exactly the
  entries it had (a permutation), and keeps the entries of each namespace in the order
  they had before.
\<close>

theorem stable_namespace_sort:
  "sorted (map getNss (stableSortByNamespace ops')) \<and>
   mset (stableSortByNamespace ops') = mset ops' \<and>
   (\<forall>ns. filter (\<lambda>op. getNss op = ns) (stableSortByNamespace ops') =
         filter (\<lambda>op. getNss op = ns) ops')"
proof -
  have c: "nssComparator = (\<lambda>l r. getNss l < getNss r)"
    by (simp add: fun_eq_iff nssComparator_def)
  show ?thesis
  proof (cases "length ops' < 1")
    case True
    then show ?thesis by (simp add: stableSortByNamespace_def)
  next
    case False
    then have "stableSortByNamespace ops' = std_stable_sort (\<lambda>l r. getNss l < getNss r) ops'"
      by (simp add: stableSortByNamespace_def c)
    then show ?thesis by (simp add: std_stable_sort_key)
  qed
qed

subsection \<open>Scenario S6 on the worker\<close>

text \<open>Scenario S6: an update of a missing document, then the delete, in initial sync.\<close>

lemma scenario_S6:
  "multiSyncApply exampleApplyEnv initialSyncOptions workerVector [] callerState =
     Some (Inr (statusOK, []), callerState\<lparr>opsAppliedStats := 1\<rparr>)"
proof -
  have len: "length workerVector = Suc (Suc 0)"
    by (simp add: workerVector_def)
  have m: "mode initialSyncOptions = kInitialSync"
    by (simp add: initialSyncOptions_def)
  have g: "groupAndApplyInserts exampleApplyEnv (storage s) workerVector it kInitialSync
             = (None, storage s)" for s :: "(string \<times> nat) list ApplyState" and it
    by (simp add: exampleApplyEnv_def)
  have u: "syncApply exampleApplyEnv (workerVector ! 0) kInitialSync exampleApplyState =
     Some (Returns updateFailed, exampleApplyState)"
    by (rule workerVector_update)
  have d: "syncApply exampleApplyEnv (workerVector ! Suc 0) kInitialSync exampleApplyState =
     Some (Returns statusOK, exampleApplyState\<lparr>opsAppliedStats := 1\<rparr>)"
    using workerVector_delete by simp
  have t0: "applyTurn exampleApplyEnv initialSyncOptions workerVector 0 exampleApplyState =
      Some (Continue (Suc 0) exampleApplyState)"
    by (simp add: applyTurn_def m g u isOK_def updateFailed_def)
  have t1: "applyTurn exampleApplyEnv initialSyncOptions workerVector (Suc 0) exampleApplyState =
      Some (Continue (Suc (Suc 0)) (exampleApplyState\<lparr>opsAppliedStats := 1\<rparr>))"
    by (simp add: applyTurn_def m g d isOK_def statusOK_def)
  have l2: "applyLoop exampleApplyEnv initialSyncOptions workerVector (Suc (Suc 0)) s =
      Some (Inr RanToEnd, s)" for s
    by (subst applyLoop.simps) (simp add: len)
  have l1: "applyLoop exampleApplyEnv initialSyncOptions workerVector (Suc 0) exampleApplyState =
      Some (Inr RanToEnd, exampleApplyState\<lparr>opsAppliedStats := 1\<rparr>)"
    by (subst applyLoop.simps) (simp add: len t1 l2)
  have l0: "applyLoop exampleApplyEnv initialSyncOptions workerVector 0 exampleApplyState =
      Some (Inr RanToEnd, exampleApplyState\<lparr>opsAppliedStats := 1\<rparr>)"
    by (subst applyLoop.simps) (simp add: len t0 l1)
  have mk: "getMultikeyPathInfo exampleApplyEnv w = []" for w
    by (simp add: exampleApplyEnv_def)
  have "multiSyncApply exampleApplyEnv initialSyncOptions workerVector [] callerState =
      Some (Inr (statusOK, []),
            restoreContext callerState (exampleApplyState\<lparr>opsAppliedStats := 1\<rparr>))"
    unfolding multiSyncApply_def workerVector_sorted workerContext_callerState l0
    by (simp add: workerResult_def mk)
  then show ?thesis by (simp add: restoreContext_def callerState_def)
qed


end
